theory Spec2Isabelle
  imports Complex_Main "HOL-Library.AList"
begin

section \<open>A resumable chunked file upload: the embedding\<close>

text \<open>
  The repository holds two revisions of \<^verbatim>\<open>chunkUpload\<close>. Revision A is
  \<^verbatim>\<open>src/chunkUpload.ts\<close> (patch-style operators, \<^verbatim>\<open>rxjs/add/operator/...\<close>); revision B
  is the later file written with pipeable operators, which also builds the single
  \<^verbatim>\<open>upload$\<close> event stream. The two agree on \<^verbatim>\<open>sliceFile\<close>, on the session opener and
  on the shape of the dispatcher; they differ in the per-chunk \<^verbatim>\<open>completed\<close> flag, in
  the error threshold and in the control methods. Where they differ the definitions take
  a \<open>revision\<close>.

  JavaScript numbers are modelled as unbounded integers (\<open>int\<close>, or \<open>nat\<close> for array
  indices), a quotient of two of them as a rational. Objects used as dictionaries with
  numeric keys (\<^verbatim>\<open>acc.completes\<close>, \<^verbatim>\<open>acc.errors\<close>, the progress accumulator) are
  association lists whose keys are kept distinct by \<open>AList.update\<close>, so
  \<^verbatim>\<open>Object.keys(o).length\<close> is the length of the list.

  The operators of the RxJS library are not code of this repository. Their behaviour is
  written into the definitions below at the places where the source calls them, and each
  such place says which rule of the library it follows.

  The transport \<^verbatim>\<open>post\<close> lives in \<^verbatim>\<open>./post\<close>, which is not among the sources. It is
  taken as a parameter: a request is answered once, with success or with failure, and
  the answers (and the progress events of a chunk POST) are the inputs of the models.
\<close>

subsection \<open>sliceFile\<close>

text \<open>
  A blob is its list of bytes. \<^verbatim>\<open>Blob.slice(start, end)\<close> follows the File API: a
  negative offset counts from the end, both offsets are clamped to the blob, and an
  empty span gives the empty blob.
\<close>

definition blob_size :: "'b list \<Rightarrow> int" where
  "blob_size b = int (length b)"

definition blob_slice :: "'b list \<Rightarrow> int \<Rightarrow> int \<Rightarrow> 'b list" where
  "blob_slice b start stop =
     (let size = blob_size b;
          relativeStart = (if start < 0 then max (size + start) 0 else min start size);
          relativeEnd = (if stop < 0 then max (size + stop) 0 else min stop size);
          span = max (relativeEnd - relativeStart) 0
      in take (nat span) (drop (nat relativeStart) b))"

text \<open>The \<^verbatim>\<open>for\<close> loop of \<^verbatim>\<open>sliceFile\<close>, with \<open>i\<close> and \<open>result\<close> as its state.\<close>

function sliceFile_loop ::
    "'b list \<Rightarrow> int \<Rightarrow> int \<Rightarrow> int \<Rightarrow> 'b list list \<Rightarrow> 'b list list" where
  "sliceFile_loop file chunks chunkSize i result =
     (if i < chunks then
        (let startSize = i * chunkSize;
             endSize = (if i = chunks - 1 then startSize + (blob_size file - startSize)
                        else (i + 1) * chunkSize);
             slice = blob_slice file startSize endSize
         in sliceFile_loop file chunks chunkSize (i + 1) (result @ [slice]))
      else result)"
  by pat_completeness auto
termination
  by (relation "measure (\<lambda>(file, chunks, chunkSize, i, result). nat (chunks - i))") auto

declare sliceFile_loop.simps [simp del]

definition sliceFile :: "'b list \<Rightarrow> int \<Rightarrow> int \<Rightarrow> 'b list list" where
  "sliceFile file chunks chunkSize = sliceFile_loop file chunks chunkSize 0 []"

subsection \<open>Data\<close>

text \<open>The fields of \<^verbatim>\<open>FileMeta\<close> that the upload reads; the others are opaque.\<close>

record FileMeta =
  chunkSize :: int
  chunks :: int
  fileSize :: int
  uploadedChunks :: "nat list"

record ChunkStatus =
  index :: nat
  completed :: bool

record ChunkProgress =
  chunkIndex :: nat
  loaded :: int

record ChunkScan =
  completes :: "(nat \<times> bool) list"
  errors :: "(nat \<times> bool) list"

datatype Err =
    Multiple_Chunk_Upload_Error
  | EmptyError
  | Sequence_contains_more_than_one_element
  | ObjectUnsubscribedError

datatype revision = RevA | RevB

definition keys :: "(nat \<times> 'v) list \<Rightarrow> nat list" where
  "keys obj = map fst obj"

subsection \<open>startChunkUpload: the session opener\<close>

text \<open>
  \<^verbatim>\<open>startChunkUpload\<close> returns a deferred observable over the closure variable
  \<^verbatim>\<open>cache\<close>. A subscription reads \<^verbatim>\<open>cache\<close>: when it is set the cached value is
  delivered at once, otherwise a session-open POST is issued. The response of a POST
  arrives later; a successful one is stored in \<^verbatim>\<open>cache\<close> (the \<^verbatim>\<open>do\<close>/\<^verbatim>\<open>tap\<close>) and
  delivered, a failed one (\<open>None\<close>) leaves \<^verbatim>\<open>cache\<close> as it is. A \<^verbatim>\<open>FileMeta\<close> is an
  object, hence truthy in the test \<^verbatim>\<open>cache ? ... : ...\<close>.
\<close>

record Opener =
  cache :: "FileMeta option"
  pending :: nat
  sessionPosts :: nat
  delivered :: "FileMeta list"

definition startChunkUpload :: Opener where
  "startChunkUpload = \<lparr>cache = None, pending = 0, sessionPosts = 0, delivered = []\<rparr>"

definition opener_subscribe :: "Opener \<Rightarrow> Opener" where
  "opener_subscribe s =
     (case cache s of
        Some fileMeta \<Rightarrow> s\<lparr>delivered := delivered s @ [fileMeta]\<rparr>
      | None \<Rightarrow> s\<lparr>sessionPosts := sessionPosts s + 1, pending := pending s + 1\<rparr>)"

definition opener_response :: "FileMeta option \<Rightarrow> Opener \<Rightarrow> Opener" where
  "opener_response resp s =
     (if pending s = 0 then s
      else (case resp of
              Some fileMeta \<Rightarrow>
                s\<lparr>pending := pending s - 1, cache := Some fileMeta,
                  delivered := delivered s @ [fileMeta]\<rparr>
            | None \<Rightarrow> s\<lparr>pending := pending s - 1\<rparr>))"

subsection \<open>uploadAllChunks: the chunk dispatcher\<close>

text \<open>
  The per-chunk closure variable \<^verbatim>\<open>completed\<close>: revision A starts it from
  \<^verbatim>\<open>fileMeta.uploadedChunks.indexOf(i) >= 0\<close>, revision B from \<^verbatim>\<open>false\<close>.
\<close>

definition initiallyCompleted :: "revision \<Rightarrow> FileMeta \<Rightarrow> nat \<Rightarrow> bool" where
  "initiallyCompleted r fileMeta i =
     (case r of RevA \<Rightarrow> i \<in> set (uploadedChunks fileMeta) | RevB \<Rightarrow> False)"

text \<open>
  The test on \<^verbatim>\<open>errorsCount\<close>: revision A has
  \<^verbatim>\<open>errorsCount >= (chunks.length > 3 ? 3 : 1)\<close>, revision B has \<^verbatim>\<open>if (errorsCount)\<close>.
\<close>

definition tripped :: "revision \<Rightarrow> nat \<Rightarrow> nat \<Rightarrow> bool" where
  "tripped r n errorsCount =
     (case r of
        RevA \<Rightarrow> errorsCount \<ge> (if n > 3 then 3 else 1)
      | RevB \<Rightarrow> errorsCount \<noteq> 0)"

text \<open>
  The accumulator function handed to \<^verbatim>\<open>mergeScan\<close>. It mutates \<^verbatim>\<open>acc\<close> in place, so
  it returns the object as it is after the call together with what the inner observable
  does: \<open>Some e\<close> for \<^verbatim>\<open>Observable.throw\<close>, \<open>None\<close> for \<^verbatim>\<open>Observable.of(acc)\<close>.
  \<open>n\<close> is \<^verbatim>\<open>chunks.length\<close>.
\<close>

definition accumulate ::
    "revision \<Rightarrow> nat \<Rightarrow> ChunkScan \<Rightarrow> ChunkStatus \<Rightarrow> Err option \<times> ChunkScan" where
  "accumulate r n acc x =
     (let acc1 = (if completed x
                  then acc\<lparr>completes := AList.update (index x) True (completes acc)\<rparr>
                  else acc\<lparr>errors := AList.update (index x) True (errors acc)\<rparr>);
          errorsCount = length (keys (errors acc1))
      in if tripped r n errorsCount
         then (Some Multiple_Chunk_Upload_Error, acc1\<lparr>errors := []\<rparr>)
         else (None, acc1))"

text \<open>
  \<^verbatim>\<open>mergeScan\<close> over a sequence of statuses. The inner observables are synchronous
  (\<^verbatim>\<open>of\<close> or \<^verbatim>\<open>throw\<close>), so the statuses are folded one after the other and the first
  throw ends the fold.
\<close>

fun mergeScan :: "revision \<Rightarrow> nat \<Rightarrow> ChunkScan \<Rightarrow> ChunkStatus list \<Rightarrow> Err option \<times> ChunkScan" where
  "mergeScan r n acc [] = (None, acc)"
| "mergeScan r n acc (x # xs) =
     (case accumulate r n acc x of
        (Some e, acc1) \<Rightarrow> (Some e, acc1)
      | (None, acc1) \<Rightarrow> mergeScan r n acc1 xs)"

definition failedIndices :: "ChunkStatus list \<Rightarrow> nat set" where
  "failedIndices xs = set (map index (filter (\<lambda>x. \<not> completed x) xs))"

text \<open>The predicate handed to \<^verbatim>\<open>single\<close>.\<close>

definition allCompleted :: "nat \<Rightarrow> ChunkScan \<Rightarrow> bool" where
  "allCompleted n acc = (length (keys (completes acc)) = n)"

text \<open>
  What one subscription of the observable returned by \<^verbatim>\<open>uploadAllChunks\<close> delivers:
  a value followed by completion (\<open>None\<close> is \<^verbatim>\<open>undefined\<close>), or an error.
\<close>

datatype Outcome = Next_Complete "ChunkScan option" | Error Err

text \<open>
  The state of one subscription. \<open>completedFlag\<close> and \<open>scanAcc\<close> are the closure
  variables \<^verbatim>\<open>completed\<close> (one per chunk) and the accumulator object; \<open>buffer\<close> and
  \<open>active\<close> are the chunk requests \<^verbatim>\<open>mergeAll(3)\<close> has not yet subscribed and those whose
  POST awaits its response; \<open>posts\<close> logs the chunk POSTs issued; \<open>hasValue\<close> belongs to
  \<^verbatim>\<open>mergeScan\<close>, \<open>singleIndex\<close> and \<open>seenValue\<close> to \<^verbatim>\<open>single\<close>; \<open>outcome\<close> is \<open>None\<close>
  while the subscription is live.
\<close>

record Dispatch =
  completedFlag :: "nat \<Rightarrow> bool"
  scanAcc :: ChunkScan
  buffer :: "nat list"
  active :: "nat list"
  posts :: "nat list"
  hasValue :: bool
  singleIndex :: nat
  seenValue :: bool
  outcome :: "Outcome option"

text \<open>
  \<^verbatim>\<open>mergeAll(3)\<close>: chunk requests are subscribed in index order while fewer than three
  are active. Subscribing the deferred request of chunk \<open>i\<close> runs its factory: with
  \<^verbatim>\<open>completed\<close> set it is \<^verbatim>\<open>Observable.empty()\<close>, which completes at once and takes no
  slot; otherwise the chunk is POSTed and stays active until its response.
\<close>

fun mergeAll3 :: "(nat \<Rightarrow> bool) \<Rightarrow> nat list \<Rightarrow> nat list \<Rightarrow> nat list
    \<Rightarrow> nat list \<times> nat list \<times> nat list" where
  "mergeAll3 flag [] act ps = ([], act, ps)"
| "mergeAll3 flag (i # buf) act ps =
     (if length act < 3 then
        (if flag i then mergeAll3 flag buf act ps
         else mergeAll3 flag buf (act @ [i]) (ps @ [i]))
      else (i # buf, act, ps))"

text \<open>
  \<^verbatim>\<open>single(predicate)\<close> receiving the accumulator (RxJS 5 and 6): the index is counted,
  a first match is remembered, a second match is an error.
\<close>

definition single_next :: "nat \<Rightarrow> Dispatch \<Rightarrow> Dispatch" where
  "single_next n d =
     (let d1 = d\<lparr>singleIndex := singleIndex d + 1\<rparr>
      in if allCompleted n (scanAcc d1)
         then (if seenValue d1
               then d1\<lparr>outcome := Some (Error Sequence_contains_more_than_one_element)\<rparr>
               else d1\<lparr>seenValue := True\<rparr>)
         else d1)"

text \<open>
  Completion of the source, once no request is active or buffered (RxJS 5 and 6):
  \<^verbatim>\<open>mergeScan\<close> first emits its accumulator if it has emitted nothing so far; \<^verbatim>\<open>single\<close>
  then emits the remembered match, or \<^verbatim>\<open>undefined\<close> when values were seen and none
  matched, or fails with \<open>EmptyError\<close> when it saw no value at all.
\<close>

definition source_complete :: "nat \<Rightarrow> Dispatch \<Rightarrow> Dispatch" where
  "source_complete n d =
     (if active d = [] \<and> buffer d = [] \<and> outcome d = None then
        (let d1 = (if \<not> hasValue d then single_next n d else d)
         in if outcome d1 \<noteq> None then d1
            else d1\<lparr>outcome := Some
                   (if singleIndex d1 > 0
                    then Next_Complete (if seenValue d1 then Some (scanAcc d1) else None)
                    else Error EmptyError)\<rparr>)
      else d)"

text \<open>
  A subscription over \<open>n\<close> chunk requests, given the closure state it finds:
  \<^verbatim>\<open>Observable.from(chunkRequests$).mergeAll(3).mergeScan(...).single(...)\<close>.
\<close>

definition subscribe :: "nat \<Rightarrow> (nat \<Rightarrow> bool) \<Rightarrow> ChunkScan \<Rightarrow> Dispatch" where
  "subscribe n flag seed =
     (case mergeAll3 flag [0..<n] [] [] of
        (buf, act, ps) \<Rightarrow>
          source_complete n
            \<lparr>completedFlag = flag, scanAcc = seed, buffer = buf, active = act, posts = ps,
             hasValue = False, singleIndex = 0, seenValue = False, outcome = None\<rparr>)"

text \<open>
  The response \<open>(i, ok)\<close> of the POST of chunk \<open>i\<close>. A response for a chunk that is not
  active, or after the subscription has ended (an error unsubscribes the source, which
  cancels the active requests), is not delivered. Otherwise: success sets the chunk's
  \<^verbatim>\<open>completed\<close> flag; either way a \<^verbatim>\<open>ChunkStatus\<close> is emitted and folded; a throw ends
  the subscription with that error; else the accumulator reaches \<^verbatim>\<open>single\<close>, the
  request completes, its slot is refilled from the buffer, and the source completes when
  nothing is left.
\<close>

definition respond :: "revision \<Rightarrow> nat \<Rightarrow> Dispatch \<Rightarrow> nat \<times> bool \<Rightarrow> Dispatch" where
  "respond r n d ev =
     (case ev of
        (i, ok) \<Rightarrow>
          if outcome d \<noteq> None \<or> i \<notin> set (active d) then d
          else
            (let d1 = d\<lparr>completedFlag := (if ok then (completedFlag d)(i := True)
                                          else completedFlag d)\<rparr>
             in case accumulate r n (scanAcc d1) \<lparr>index = i, completed = ok\<rparr> of
                  (Some e, acc1) \<Rightarrow> d1\<lparr>scanAcc := acc1, outcome := Some (Error e)\<rparr>
                | (None, acc1) \<Rightarrow>
                    (let d2 = single_next n (d1\<lparr>scanAcc := acc1, hasValue := True\<rparr>)
                     in if outcome d2 \<noteq> None then d2
                        else (case mergeAll3 (completedFlag d2) (buffer d2)
                                     (removeAll i (active d2)) (posts d2) of
                                (buf, act, ps) \<Rightarrow>
                                  source_complete n
                                    (d2\<lparr>buffer := buf, active := act, posts := ps\<rparr>)))))"

text \<open>
  \<^verbatim>\<open>uploadAllChunks(chunks, fileMeta, progressSubject, config)\<close>, first subscription:
  the flags are initialised per chunk and the seed of \<^verbatim>\<open>mergeScan\<close> is the literal
  \<^verbatim>\<open>{ completes: {}, errors: {} }\<close>. The URLs and headers of \<^verbatim>\<open>config\<close> do not
  influence the dispatch and are left out; the body of the POST of chunk \<open>i\<close> is
  \<open>chunkList ! i\<close>. The progress events that a POST sends to \<^verbatim>\<open>progressSubject\<close> are
  the input of the progress pipeline further down.
\<close>

definition uploadAllChunks :: "revision \<Rightarrow> 'b list list \<Rightarrow> FileMeta \<Rightarrow> Dispatch" where
  "uploadAllChunks r chunkList fileMeta =
     subscribe (length chunkList) (initiallyCompleted r fileMeta)
       \<lparr>completes = [], errors = []\<rparr>"

text \<open>A dispatcher run: the first subscription followed by the responses that arrive.\<close>

definition run ::
    "revision \<Rightarrow> 'b list list \<Rightarrow> FileMeta \<Rightarrow> (nat \<times> bool) list \<Rightarrow> Dispatch" where
  "run r chunkList fileMeta evs =
     foldl (respond r (length chunkList)) (uploadAllChunks r chunkList fileMeta) evs"

text \<open>
  What revision A does with the value of a run: \<^verbatim>\<open>takeUntil(pause$)\<close> and
  \<^verbatim>\<open>repeatWhen\<close> pass it on, \<^verbatim>\<open>mapTo(fileMeta)\<close> replaces it by \<^verbatim>\<open>fileMeta\<close>
  whatever it is (\<^verbatim>\<open>undefined\<close> included), and the \<^verbatim>\<open>concatMap\<close> that follows calls
  \<^verbatim>\<open>finishChunkUpload\<close>. So the session-finish POST is issued exactly when the run
  delivers a value; an error of the run goes to \<^verbatim>\<open>retryWhen\<close> instead.
\<close>

definition finishRequested :: "Dispatch \<Rightarrow> bool" where
  "finishRequested d =
     (case outcome d of
        Some (Next_Complete v) \<Rightarrow> True
      | Some (Error e) \<Rightarrow> False
      | None \<Rightarrow> False)"

subsection \<open>progress$: the progress pipeline\<close>

text \<open>
  The \<^verbatim>\<open>scan\<close> stage stores the latest \<^verbatim>\<open>loaded\<close> of each chunk; the \<^verbatim>\<open>map\<close> stage sums
  the stored values over the keys and divides by \<^verbatim>\<open>fileMeta.fileSize\<close>. The quotient is
  exact here; for \<^verbatim>\<open>fileSize = 0\<close> JavaScript yields \<^verbatim>\<open>NaN\<close> or an infinity, which a
  rational does not represent, so the properties below are stated for a positive
  \<open>fileSize\<close>.
\<close>

definition scanProgress :: "(nat \<times> int) list \<Rightarrow> ChunkProgress \<Rightarrow> (nat \<times> int) list" where
  "scanProgress acc cp = AList.update (chunkIndex cp) (loaded cp) acc"

definition lookup :: "(nat \<times> int) list \<Rightarrow> nat \<Rightarrow> int" where
  "lookup acc k = (case map_of acc k of Some v \<Rightarrow> v | None \<Rightarrow> 0)"

definition totalLoaded :: "(nat \<times> int) list \<Rightarrow> int" where
  "totalLoaded acc = foldl (\<lambda>t k. t + lookup acc k) 0 (keys acc)"

definition fraction :: "int \<Rightarrow> (nat \<times> int) list \<Rightarrow> rat" where
  "fraction fsize acc = of_int (totalLoaded acc) / of_int fsize"

text \<open>The values leaving the \<^verbatim>\<open>map\<close> stage, one per progress event.\<close>

fun mapped :: "int \<Rightarrow> (nat \<times> int) list \<Rightarrow> ChunkProgress list \<Rightarrow> rat list" where
  "mapped fsize acc [] = []"
| "mapped fsize acc (cp # cps) =
     (let acc1 = scanProgress acc cp in fraction fsize acc1 # mapped fsize acc1 cps)"

text \<open>
  \<^verbatim>\<open>distinctUntilChanged(compare)\<close>: the first value passes and becomes the key; a later
  value is dropped when \<open>compare key value\<close> holds, otherwise it passes and becomes the
  key.
\<close>

fun distinctUntilChanged :: "('a \<Rightarrow> 'a \<Rightarrow> bool) \<Rightarrow> 'a option \<Rightarrow> 'a list \<Rightarrow> 'a list" where
  "distinctUntilChanged compare key [] = []"
| "distinctUntilChanged compare None (x # xs) = x # distinctUntilChanged compare (Some x) xs"
| "distinctUntilChanged compare (Some k) (x # xs) =
     (if compare k x then distinctUntilChanged compare (Some k) xs
      else x # distinctUntilChanged compare (Some x) xs)"

text \<open>
  The progress values of one subscription of \<^verbatim>\<open>progress$\<close>, for the progress events that
  arrive once \<^verbatim>\<open>fileMeta\<close> is known; the comparator is \<^verbatim>\<open>(x, y) => x > y\<close>. The seed
  \<^verbatim>\<open>{}\<close> of \<^verbatim>\<open>scan\<close> is one object that the accumulator function mutates, so \<open>initial\<close>
  is what the subscription finds in it: \<open>[]\<close> for the first subscription, and what
  earlier subscriptions stored for a later one.
\<close>

definition progressValues ::
    "(nat \<times> int) list \<Rightarrow> FileMeta \<Rightarrow> ChunkProgress list \<Rightarrow> rat list" where
  "progressValues initial fileMeta cps =
     distinctUntilChanged (\<lambda>x y. x > y) None (mapped (fileSize fileMeta) initial cps)"

subsection \<open>The control subjects and the engine methods\<close>

text \<open>
  A \<^verbatim>\<open>Subject\<close> of RxJS with the three fields its methods read. \<^verbatim>\<open>next\<close> throws
  \<open>ObjectUnsubscribedError\<close> on a closed subject, does nothing on a stopped one, and
  otherwise notifies a snapshot of the observers in the order they subscribed;
  \<^verbatim>\<open>complete\<close> throws on a closed subject and otherwise stops the subject, completes its
  observers and drops them; \<^verbatim>\<open>unsubscribe\<close> stops and closes the subject.

  The observers modelled are those of revision B's \<^verbatim>\<open>upload$\<close> that turn a control
  signal into output: the notifier of \<^verbatim>\<open>takeUntil(abortSubject)\<close> and the three merged
  branches on \<open>errorSubject\<close>, \<open>retrySubject\<close> and \<open>abortSubject\<close>. A subscriber that
  has completed ignores later values. The subscribers inside the pipeline (the pause and
  resume gates, the retry gate, the progress scan) are not modelled; a value delivered by
  a live subject is counted in \<open>nexts\<close>.
\<close>

datatype Observer = TakeUntil_abort | Merge_error | Merge_retry | Merge_abort

datatype SubjectId = StartS | RetryS | AbortS | ProgressS | ControlS | ErrorS

datatype Signal = Unit | Flag bool | Failure Err

text \<open>
  Modelled from the spec: \<^verbatim>\<open>createAction\<close> lives in \<^verbatim>\<open>./util\<close>, which is not among the
  sources. The events it builds are the tagged values of the output stream that the
  specification lists: \<^verbatim>\<open>start\<close>, \<^verbatim>\<open>pausable(b)\<close>, \<^verbatim>\<open>retryable(b)\<close>,
  \<^verbatim>\<open>chunkstart\<close>, \<^verbatim>\<open>progress(f)\<close>, \<^verbatim>\<open>finish\<close> and \<^verbatim>\<open>error(e)\<close>.
\<close>

datatype UploadEvent =
    Start
  | Pausable bool
  | Retryable bool
  | Chunkstart
  | Progress rat
  | Finish
  | ErrorEvent Err

record Subject =
  closed_s :: bool
  isStopped :: bool
  observers :: "Observer list"
  nexts :: nat

record Engine =
  startSubject :: Subject
  retrySubject :: Subject
  abortSubject :: Subject
  progressSubject :: Subject
  controlSubject :: Subject
  errorSubject :: Subject
  stopped :: "Observer list"
  mainCompleted :: bool
  emitted :: "UploadEvent list"

definition subject :: "SubjectId \<Rightarrow> Engine \<Rightarrow> Subject" where
  "subject sid e =
     (case sid of
        StartS \<Rightarrow> startSubject e | RetryS \<Rightarrow> retrySubject e | AbortS \<Rightarrow> abortSubject e
      | ProgressS \<Rightarrow> progressSubject e | ControlS \<Rightarrow> controlSubject e
      | ErrorS \<Rightarrow> errorSubject e)"

definition set_subject :: "SubjectId \<Rightarrow> Subject \<Rightarrow> Engine \<Rightarrow> Engine" where
  "set_subject sid s e =
     (case sid of
        StartS \<Rightarrow> e\<lparr>startSubject := s\<rparr> | RetryS \<Rightarrow> e\<lparr>retrySubject := s\<rparr>
      | AbortS \<Rightarrow> e\<lparr>abortSubject := s\<rparr> | ProgressS \<Rightarrow> e\<lparr>progressSubject := s\<rparr>
      | ControlS \<Rightarrow> e\<lparr>controlSubject := s\<rparr> | ErrorS \<Rightarrow> e\<lparr>errorSubject := s\<rparr>)"

text \<open>
  The output stream is the merge of the main pipeline with the three branches; it
  completes when all four have completed, and delivers nothing afterwards.
\<close>

definition outputCompleted :: "Engine \<Rightarrow> bool" where
  "outputCompleted e =
     (mainCompleted e \<and> Merge_error \<in> set (stopped e) \<and> Merge_retry \<in> set (stopped e)
      \<and> Merge_abort \<in> set (stopped e))"

definition emit :: "UploadEvent list \<Rightarrow> Engine \<Rightarrow> Engine" where
  "emit evs e = (if outputCompleted e then e else e\<lparr>emitted := emitted e @ evs\<rparr>)"

definition Subject_complete :: "SubjectId \<Rightarrow> Engine \<Rightarrow> Err + Engine" where
  "Subject_complete sid e =
     (let s = subject sid e
      in if closed_s s then Inl ObjectUnsubscribedError
         else Inr (set_subject sid (s\<lparr>isStopped := True, observers := []\<rparr>)
                     (e\<lparr>stopped := stopped e @ observers s\<rparr>)))"

definition Subject_unsubscribe :: "SubjectId \<Rightarrow> Engine \<Rightarrow> Engine" where
  "Subject_unsubscribe sid e =
     set_subject sid ((subject sid e)\<lparr>isStopped := True, closed_s := True, observers := []\<rparr>) e"

definition thenDo :: "Err + Engine \<Rightarrow> (Engine \<Rightarrow> Err + Engine) \<Rightarrow> Err + Engine" where
  "thenDo m f = (case m of Inl err \<Rightarrow> Inl err | Inr e \<Rightarrow> f e)"

definition close_subject :: "SubjectId \<Rightarrow> Engine \<Rightarrow> Err + Engine" where
  "close_subject sid e = thenDo (Subject_complete sid e) (\<lambda>e1. Inr (Subject_unsubscribe sid e1))"

text \<open>
  \<^verbatim>\<open>cleanUp\<close> of revision B: each subject is completed and then unsubscribed, in the
  order of the source.
\<close>

definition cleanUp :: "Engine \<Rightarrow> Err + Engine" where
  "cleanUp e =
     thenDo (thenDo (thenDo (thenDo (thenDo (close_subject RetryS e)
       (close_subject AbortS)) (close_subject ControlS)) (close_subject ProgressS))
       (close_subject StartS)) (close_subject ErrorS)"

text \<open>
  What an observer does with a value. The notifier of \<^verbatim>\<open>takeUntil\<close> completes the main
  pipeline: the \<^verbatim>\<open>tap\<close> that follows runs \<^verbatim>\<open>cleanUp\<close> and then passes the completion
  on. The branch on \<open>abortSubject\<close> maps every value to \<^verbatim>\<open>pausable(false)\<close> and
  \<^verbatim>\<open>retryable(false)\<close>, the branch on \<open>retrySubject\<close> maps \<open>b\<close> to \<^verbatim>\<open>retryable(!b)\<close>,
  the branch on \<open>errorSubject\<close> maps an error to the \<^verbatim>\<open>error\<close> event.
\<close>

definition notify :: "Signal \<Rightarrow> Observer \<Rightarrow> Engine \<Rightarrow> Err + Engine" where
  "notify v ob e =
     (if ob \<in> set (stopped e) then Inr e
      else (case ob of
              TakeUntil_abort \<Rightarrow>
                thenDo (cleanUp (e\<lparr>stopped := stopped e @ [TakeUntil_abort]\<rparr>))
                  (\<lambda>e1. Inr (e1\<lparr>mainCompleted := True\<rparr>))
            | Merge_abort \<Rightarrow> Inr (emit [Pausable False, Retryable False] e)
            | Merge_retry \<Rightarrow>
                (case v of Flag b \<Rightarrow> Inr (emit [Retryable (\<not> b)] e) | _ \<Rightarrow> Inr e)
            | Merge_error \<Rightarrow>
                (case v of Failure err \<Rightarrow> Inr (emit [ErrorEvent err] e) | _ \<Rightarrow> Inr e)))"

fun notifyAll :: "Signal \<Rightarrow> Observer list \<Rightarrow> Engine \<Rightarrow> Err + Engine" where
  "notifyAll v [] e = Inr e"
| "notifyAll v (ob # obs) e = thenDo (notify v ob e) (notifyAll v obs)"

definition Subject_next :: "SubjectId \<Rightarrow> Signal \<Rightarrow> Engine \<Rightarrow> Err + Engine" where
  "Subject_next sid v e =
     (let s = subject sid e
      in if closed_s s then Inl ObjectUnsubscribedError
         else if isStopped s then Inr e
         else notifyAll v (observers s) (set_subject sid (s\<lparr>nexts := nexts s + 1\<rparr>) e))"

text \<open>The methods of the handle that revision B returns.\<close>

definition start :: "Engine \<Rightarrow> Err + Engine" where
  "start e = (if \<not> closed_s (startSubject e) then Subject_next StartS Unit e else Inr e)"

definition pause :: "Engine \<Rightarrow> Err + Engine" where
  "pause e =
     (if \<not> closed_s (controlSubject e) then Subject_next ControlS (Flag True) e else Inr e)"

definition resume :: "Engine \<Rightarrow> Err + Engine" where
  "resume e =
     (if \<not> closed_s (controlSubject e) then Subject_next ControlS (Flag False) e else Inr e)"

definition retry :: "Engine \<Rightarrow> Err + Engine" where
  "retry e =
     (if \<not> closed_s (retrySubject e) then Subject_next RetryS (Flag True) e else Inr e)"

definition abort :: "Engine \<Rightarrow> Err + Engine" where
  "abort e = (if \<not> closed_s (abortSubject e) then Subject_next AbortS Unit e else Inr e)"

text \<open>
  The engine of revision B once \<^verbatim>\<open>upload$\<close> has been subscribed with \<^verbatim>\<open>autoStart\<close>.
  Subscribing \<^verbatim>\<open>source.pipe(..., merge(o))\<close> subscribes \<open>source\<close> before \<open>o\<close>, and
  \<^verbatim>\<open>takeUntil(abortSubject)\<close> subscribes its notifier when it is subscribed; so on
  \<open>abortSubject\<close> the notifier of \<^verbatim>\<open>takeUntil\<close> stands before the merged branch of the
  last line of the pipe. The events \<^verbatim>\<open>start\<close>, \<^verbatim>\<open>pausable(true)\<close> and
  \<^verbatim>\<open>retryable(false)\<close> have been delivered and the session-open POST is under way.
\<close>

definition openSubject :: "Observer list \<Rightarrow> Subject" where
  "openSubject obs = \<lparr>closed_s = False, isStopped = False, observers = obs, nexts = 0\<rparr>"

definition subscribed :: Engine where
  "subscribed =
     \<lparr>startSubject = openSubject [],
      retrySubject = openSubject [Merge_retry],
      abortSubject = openSubject [TakeUntil_abort, Merge_abort],
      progressSubject = openSubject [],
      controlSubject = openSubject [],
      errorSubject = openSubject [Merge_error],
      stopped = [],
      mainCompleted = False,
      emitted = [Start, Pausable True, Retryable False]\<rparr>"

text \<open>
  Revision A has no guard in its methods and its \<^verbatim>\<open>cleanUp\<close> only unsubscribes; its
  \<^verbatim>\<open>pause\<close> is \<^verbatim>\<open>controlSubject.next(true)\<close>.
\<close>

definition cleanUp_A :: "Engine \<Rightarrow> Engine" where
  "cleanUp_A e =
     Subject_unsubscribe ControlS (Subject_unsubscribe ProgressS
       (Subject_unsubscribe AbortS (Subject_unsubscribe RetryS e)))"

definition pause_A :: "Engine \<Rightarrow> Err + Engine" where
  "pause_A e = Subject_next ControlS (Flag True) e"

subsection \<open>Notions used in the statements and proofs\<close>

text \<open>The blob that the loop of \<^verbatim>\<open>sliceFile\<close> pushes in iteration \<open>i\<close>.\<close>

definition sliceAt :: "'b list \<Rightarrow> int \<Rightarrow> int \<Rightarrow> int \<Rightarrow> 'b list" where
  "sliceAt blob n sz i =
     blob_slice blob (i * sz)
       (if i = n - 1 then i * sz + (blob_size blob - i * sz) else (i + 1) * sz)"

text \<open>The chunks whose POST failed, or succeeded, among the responses of a run.\<close>

definition failedChunks :: "(nat \<times> bool) list \<Rightarrow> nat set" where
  "failedChunks evs = set (map fst (filter (\<lambda>ev. \<not> snd ev) evs))"

definition succeededChunks :: "(nat \<times> bool) list \<Rightarrow> nat set" where
  "succeededChunks evs = set (map fst (filter snd evs))"

text \<open>
  What holds of a subscription of the dispatcher at every moment: the POSTs issued
  together with the buffered requests that are still to be POSTed are the chunks not
  flagged at the start, in index order; the flags of buffered chunks are as at the
  start; and a subscription that has delivered a value has an empty buffer.
\<close>

definition dispatch_inv :: "nat \<Rightarrow> (nat \<Rightarrow> bool) \<Rightarrow> Dispatch \<Rightarrow> bool" where
  "dispatch_inv n flag0 d =
     (posts d @ filter (\<lambda>i. \<not> flag0 i) (buffer d) = filter (\<lambda>i. \<not> flag0 i) [0..<n]
      \<and> (\<forall>i\<in>set (buffer d). completedFlag d i = flag0 i)
      \<and> distinct (buffer d)
      \<and> set (active d) \<inter> set (buffer d) = {}
      \<and> (\<forall>v. outcome d = Some (Next_Complete v) \<longrightarrow> buffer d = []))"

text \<open>The keys of the accumulator come from the responses seen so far.\<close>

definition acc_inv :: "nat set \<Rightarrow> nat set \<Rightarrow> Dispatch \<Rightarrow> bool" where
  "acc_inv F S d =
     (set (keys (errors (scanAcc d))) \<subseteq> F \<and> distinct (keys (errors (scanAcc d)))
      \<and> set (keys (completes (scanAcc d))) \<subseteq> S)"

text \<open>
  Only chunks that were POSTed are active, and only they can be keys of \<open>completes\<close>.
\<close>

definition completes_inv :: "Dispatch \<Rightarrow> bool" where
  "completes_inv d =
     (set (active d) \<subseteq> set (posts d)
      \<and> set (keys (completes (scanAcc d))) \<subseteq> set (posts d)
      \<and> distinct (keys (completes (scanAcc d))))"

section \<open>Properties\<close>

subsection \<open>sliceFile\<close>

lemma sliceFile_loop_map:
  "sliceFile_loop blob n sz i acc = acc @ map (sliceAt blob n sz) [i..n - 1]"
proof (induction blob n sz i acc rule: sliceFile_loop.induct)
  case (1 blob n sz i acc)
  show ?case
  proof (cases "i < n")
    case True
    then have u: "[i..n - 1] = i # [i + 1..n - 1]"
      by (simp add: upto_rec1)
    show ?thesis
      using True "1.IH"[OF True refl refl refl]
      by (subst sliceFile_loop.simps) (simp add: u sliceAt_def Let_def)
  next
    case False
    then show ?thesis
      by (subst sliceFile_loop.simps) simp
  qed
qed

lemma sliceFile_map: "sliceFile blob n sz = map (sliceAt blob n sz) [0..n - 1]"
  by (simp add: sliceFile_def sliceFile_loop_map)

lemma blob_slice_in_range:
  assumes "0 \<le> s" "s \<le> e" "e \<le> blob_size b"
  shows "blob_slice b s e = take (nat (e - s)) (drop (nat s) b)"
proof -
  have a: "\<not> s < 0" "\<not> e < 0" using assms by auto
  have b: "min s (blob_size b) = s" "min e (blob_size b) = e" "max (e - s) 0 = e - s"
    using assms by auto
  show ?thesis
    unfolding blob_slice_def Let_def by (simp only: a b if_False)
qed

lemma inner_end_in_blob:
  assumes "0 \<le> i" "i < n - 1" "sz * (n - 1) < blob_size blob" "0 < sz"
  shows "(i + 1) * sz \<le> blob_size blob"
proof -
  have "(i + 1) * sz \<le> (n - 1) * sz"
    using assms by (intro mult_right_mono) auto
  moreover have "(n - 1) * sz = sz * (n - 1)" by (rule mult.commute)
  ultimately show ?thesis using assms(3) by linarith
qed

lemma sliceAt_inner:
  assumes "0 \<le> i" "i < n - 1" "sz * (n - 1) < blob_size blob" "0 < sz"
  shows "sliceAt blob n sz i = take (nat sz) (drop (nat (i * sz)) blob)"
proof -
  have le: "(i + 1) * sz \<le> blob_size blob" using inner_end_in_blob[OF assms] .
  have ge: "0 \<le> i * sz" using assms by simp
  have d: "(i + 1) * sz - i * sz = sz" by (simp add: distrib_right)
  have o: "i * sz \<le> (i + 1) * sz" using assms by (simp add: distrib_right)
  have ne: "i \<noteq> n - 1" using assms by simp
  show ?thesis
    unfolding sliceAt_def using blob_slice_in_range[OF ge o le] ne d by simp
qed

lemma sliceAt_last:
  assumes "1 \<le> n" "sz * (n - 1) < blob_size blob" "0 < sz"
  shows "sliceAt blob n sz (n - 1) = drop (nat ((n - 1) * sz)) blob"
proof -
  have ge: "0 \<le> (n - 1) * sz" using assms by simp
  have lt: "(n - 1) * sz \<le> blob_size blob" using assms by (simp add: mult.commute)
  have e: "(n - 1) * sz + (blob_size blob - (n - 1) * sz) = blob_size blob"
    by simp
  have "sliceAt blob n sz (n - 1) = blob_slice blob ((n - 1) * sz) (blob_size blob)"
    unfolding sliceAt_def by (simp add: e)
  also have "\<dots> = take (nat (blob_size blob - (n - 1) * sz)) (drop (nat ((n - 1) * sz)) blob)"
    using blob_slice_in_range[OF ge lt order_refl] .
  also have "\<dots> = drop (nat ((n - 1) * sz)) blob"
    using ge by (simp add: blob_size_def nat_diff_distrib)
  finally show ?thesis .
qed

lemma concat_slices_from:
  assumes "1 \<le> n" "sz * (n - 1) < blob_size blob" "0 < sz"
  shows "0 \<le> i \<Longrightarrow> i \<le> n - 1 \<Longrightarrow>
         concat (map (sliceAt blob n sz) [i..n - 1]) = drop (nat (i * sz)) blob"
proof (induction "nat (n - 1 - i)" arbitrary: i)
  case 0
  then have "i = n - 1" by simp
  then show ?case using sliceAt_last[OF assms] by simp
next
  case (Suc k)
  then have lt: "i < n - 1" by linarith
  then have u: "[i..n - 1] = i # [i + 1..n - 1]" by (simp add: upto_rec1)
  have ih: "concat (map (sliceAt blob n sz) [i + 1..n - 1]) = drop (nat ((i + 1) * sz)) blob"
    using Suc.hyps(1)[of "i + 1"] Suc.hyps(2) Suc.prems lt by simp
  have k: "nat ((i + 1) * sz) = nat (i * sz) + nat sz"
    using Suc.prems assms(3) by (simp add: distrib_right nat_add_distrib)
  have "take (nat sz) (drop (nat (i * sz)) blob) @ drop (nat (i * sz) + nat sz) blob
          = drop (nat (i * sz)) blob"
    by (metis add.commute append_take_drop_id drop_drop)
  then show ?case
    using sliceAt_inner[OF Suc.prems(1) lt assms(2,3)] ih k by (simp add: u)
qed

lemma take_drop_bytes:
  "b \<le> length xs \<Longrightarrow> take (b - a) (drop a xs) = map ((!) xs) [a..<b]"
  by (rule nth_equalityI) auto

lemma chunkSize_positive:
  assumes "1 \<le> n" "sz * (n - 1) < blob_size blob" "blob_size blob \<le> sz * n"
  shows "0 < sz"
proof (rule ccontr)
  assume "\<not> 0 < sz"
  then have neg: "sz \<le> 0" by simp
  then have "sz * n \<le> 0" using assms(1) by (simp add: mult_le_0_iff)
  moreover have "0 \<le> blob_size blob" by (simp add: blob_size_def)
  moreover have "sz * n \<le> sz * (n - 1)"
    using neg by (simp add: right_diff_distrib)
  ultimately show False using assms by linarith
qed

text \<open>
  Claim C7. For a blob, \<open>n \<ge> 1\<close> chunks and a chunk size \<open>sz\<close> with
  \<open>sz * (n - 1) < size \<le> sz * n\<close>, \<^verbatim>\<open>sliceFile\<close> returns exactly \<open>n\<close> blobs; blob \<open>i\<close>
  holds the bytes at the positions from \<open>i * sz\<close> up to, not including,
  \<open>min ((i + 1) * sz) size\<close>; the blobs concatenate to the original; every blob but the
  last has length \<open>sz\<close>, and the last has length \<open>size - (n - 1) * sz\<close>.
\<close>

theorem sliceFile_partition:
  assumes "1 \<le> n" "sz * (n - 1) < blob_size blob" "blob_size blob \<le> sz * n"
  shows "length (sliceFile blob n sz) = nat n
       \<and> (\<forall>i<nat n. sliceFile blob n sz ! i
              = map ((!) blob) [nat (int i * sz)..<nat (min ((int i + 1) * sz) (blob_size blob))])
       \<and> concat (sliceFile blob n sz) = blob
       \<and> (\<forall>i<nat n - 1. length (sliceFile blob n sz ! i) = nat sz)
       \<and> length (last (sliceFile blob n sz)) = nat (blob_size blob - (n - 1) * sz)"
proof -
  let ?S = "sliceFile blob n sz"
  have pos: "0 < sz" using chunkSize_positive[OF assms] .
  have len: "length ?S = nat n" by (simp add: sliceFile_map)
  have nth: "?S ! i = sliceAt blob n sz (int i)" if "i < nat n" for i
    using that by (simp add: sliceFile_map)
  have inner: "?S ! i = take (nat sz) (drop (nat (int i * sz)) blob)"
    if "i < nat n - 1" for i
    using that nth[of i] sliceAt_inner[of "int i" n sz blob] assms(2) pos by simp
  have lastc: "?S ! (nat n - 1) = drop (nat ((n - 1) * sz)) blob"
    using nth[of "nat n - 1"] sliceAt_last[OF assms(1,2) pos] assms(1)
    by (simp add: int_ops)
  have fits: "(int i + 1) * sz \<le> blob_size blob" if "i < nat n - 1" for i
    using inner_end_in_blob[of "int i" n sz blob] that assms(2) pos by simp
  have cover: "?S ! i = map ((!) blob) [nat (int i * sz)
                 ..<nat (min ((int i + 1) * sz) (blob_size blob))]"
    if i: "i < nat n" for i
  proof (cases "i < nat n - 1")
    case True
    have le: "(int i + 1) * sz \<le> blob_size blob" using fits[OF True] .
    then have m: "min ((int i + 1) * sz) (blob_size blob) = (int i + 1) * sz"
      by simp
    have b: "nat ((int i + 1) * sz) \<le> length blob"
      using le by (simp add: blob_size_def)
    have d: "nat ((int i + 1) * sz) - nat (int i * sz) = nat sz"
      using pos by (simp add: distrib_right nat_add_distrib)
    show ?thesis
      using inner[OF True] take_drop_bytes[OF b, of "nat (int i * sz)"] d m by simp
  next
    case False
    then have e: "i = nat n - 1" using i by simp
    then have ie: "int i = n - 1" using assms(1) by simp
    have "int i + 1 = n" using ie by simp
    then have "(int i + 1) * sz = sz * n" by (simp only: mult.commute)
    then have m: "min ((int i + 1) * sz) (blob_size blob) = blob_size blob"
      using assms(3) by (simp only: min_def) simp
    have "drop a blob = map ((!) blob) [a..<length blob]" for a
      using take_drop_bytes[of "length blob" blob a] by simp
    then show ?thesis
      using lastc e ie m by (simp add: blob_size_def)
  qed
  have cat: "concat ?S = blob"
    using concat_slices_from[OF assms(1,2) pos, of 0] assms(1) by (simp add: sliceFile_map)
  have lens: "length (?S ! i) = nat sz" if "i < nat n - 1" for i
  proof -
    have "nat (int i * sz) + nat sz \<le> length blob"
      using fits[OF that] pos by (simp add: blob_size_def distrib_right nat_add_distrib[symmetric])
    then show ?thesis using inner[OF that] by simp
  qed
  have ne: "?S \<noteq> []" using len assms(1) by auto
  have "last ?S = ?S ! (nat n - 1)" using ne len by (simp add: last_conv_nth)
  moreover have "0 \<le> (n - 1) * sz" using assms(1) pos by simp
  ultimately have lastlen: "length (last ?S) = nat (blob_size blob - (n - 1) * sz)"
    using lastc by (simp add: blob_size_def)
  show ?thesis using len cover cat lens lastlen by blast
qed

theorem sliceFile_partition_witness:
  "(1::int) \<le> 3 \<and> (3::int) * (3 - 1) < blob_size [10, 20, 30, 40, 50, 60, 70::nat]
   \<and> blob_size [10, 20, 30, 40, 50, 60, 70::nat] \<le> 3 * 3
   \<and> length (sliceFile [10, 20, 30, 40, 50, 60, 70::nat] 3 3) = 3
   \<and> concat (sliceFile [10, 20, 30, 40, 50, 60, 70::nat] 3 3) = [10, 20, 30, 40, 50, 60, 70]
   \<and> length (last (sliceFile [10, 20, 30, 40, 50, 60, 70::nat] 3 3)) = 1"
  using sliceFile_partition[of 3 3 "[10, 20, 30, 40, 50, 60, 70::nat]"]
  by (simp add: blob_size_def)

text \<open>The same input, evaluated.\<close>

lemma sliceFile_example:
  "sliceFile [10, 20, 30, 40, 50, 60, 70::nat] 3 3 = [[10, 20, 30], [40, 50, 60], [70]]"
  by code_simp

subsection \<open>The session opener\<close>

lemma opener_cached_subscriptions:
  "cache s = Some fileMeta \<Longrightarrow>
   cache ((opener_subscribe ^^ k) s) = Some fileMeta
   \<and> sessionPosts ((opener_subscribe ^^ k) s) = sessionPosts s
   \<and> pending ((opener_subscribe ^^ k) s) = pending s
   \<and> delivered ((opener_subscribe ^^ k) s) = delivered s @ replicate k fileMeta"
proof (induction k)
  case 0
  then show ?case by simp
next
  case (Suc k)
  then show ?case
    by (simp add: opener_subscribe_def replicate_append_same)
qed

text \<open>
  Claim C5. The first subscription of the session opener issues the session-open POST;
  once its response has been cached, every later subscription delivers the cached
  \<^verbatim>\<open>FileMeta\<close> and issues no request, so however many subscriptions follow there has
  been exactly one session-open.
\<close>

theorem session_opened_once:
  "sessionPosts (opener_subscribe startChunkUpload) = 1
   \<and> cache (opener_response (Some fileMeta) (opener_subscribe startChunkUpload)) = Some fileMeta
   \<and> sessionPosts ((opener_subscribe ^^ k)
        (opener_response (Some fileMeta) (opener_subscribe startChunkUpload))) = 1
   \<and> delivered ((opener_subscribe ^^ k)
        (opener_response (Some fileMeta) (opener_subscribe startChunkUpload)))
       = replicate (Suc k) fileMeta"
proof -
  let ?s = "opener_response (Some fileMeta) (opener_subscribe startChunkUpload)"
  have c: "cache ?s = Some fileMeta"
    by (simp add: opener_response_def opener_subscribe_def startChunkUpload_def)
  have p: "sessionPosts ?s = 1" "delivered ?s = [fileMeta]"
    by (simp_all add: opener_response_def opener_subscribe_def startChunkUpload_def)
  have "sessionPosts (opener_subscribe startChunkUpload) = 1"
    by (simp add: opener_subscribe_def startChunkUpload_def)
  then show ?thesis
    using opener_cached_subscriptions[OF c, of k] c p by (simp add: replicate_append_same)
qed

theorem session_opened_once_witness:
  "sessionPosts ((opener_subscribe ^^ 3)
     (opener_response (Some \<lparr>chunkSize = 100, chunks = 5, fileSize = 500, uploadedChunks = []\<rparr>)
        (opener_subscribe startChunkUpload))) = 1"
  using session_opened_once[of "\<lparr>chunkSize = 100, chunks = 5, fileSize = 500, uploadedChunks = []\<rparr>" 3]
  by simp

subsection \<open>The error threshold\<close>

lemma keys_update:
  "set (keys (AList.update k v al)) = insert k (set (keys al))"
  using dom_update[of k v al] by (simp add: keys_def)

lemma distinct_keys_update:
  "distinct (keys al) \<Longrightarrow> distinct (keys (AList.update k v al))"
  by (simp add: keys_def distinct_update)

lemma accumulate_completed:
  "completed x \<Longrightarrow> \<not> tripped r n (length (keys (errors acc))) \<Longrightarrow>
   accumulate r n acc x
     = (None, acc\<lparr>completes := AList.update (index x) True (completes acc)\<rparr>)"
  by (simp add: accumulate_def)

lemma accumulate_failed:
  "\<not> completed x \<Longrightarrow>
   accumulate r n acc x
     = (if tripped r n (length (keys (AList.update (index x) True (errors acc))))
        then (Some Multiple_Chunk_Upload_Error,
              acc\<lparr>errors := []\<rparr>)
        else (None, acc\<lparr>errors := AList.update (index x) True (errors acc)\<rparr>))"
  by (simp add: accumulate_def)

lemma failedIndices_Cons:
  "failedIndices (x # xs) = (if completed x then failedIndices xs
                             else insert (index x) (failedIndices xs))"
  by (simp add: failedIndices_def)

lemma finite_failedIndices: "finite (failedIndices xs)"
  by (simp add: failedIndices_def)

lemma mergeScan_threshold_from:
  "distinct (keys (errors acc)) \<Longrightarrow> \<not> tripped RevA n (length (keys (errors acc))) \<Longrightarrow>
   (fst (mergeScan RevA n acc xs) = Some Multiple_Chunk_Upload_Error)
     = ((if n > 3 then 3 else 1) \<le> card (set (keys (errors acc)) \<union> failedIndices xs))"
proof (induction xs arbitrary: acc)
  case Nil
  then show ?case
    by (simp add: failedIndices_def tripped_def distinct_card)
next
  case (Cons x xs)
  show ?case
  proof (cases "completed x")
    case True
    then show ?thesis
      using Cons.IH[of "acc\<lparr>completes := AList.update (index x) True (completes acc)\<rparr>"]
        Cons.prems
      by (simp add: accumulate_completed failedIndices_Cons)
  next
    case False
    let ?e = "AList.update (index x) True (errors acc)"
    have d: "distinct (keys ?e)" using Cons.prems(1) by (rule distinct_keys_update)
    have s: "set (keys ?e) = insert (index x) (set (keys (errors acc)))" by (rule keys_update)
    have len: "length (keys ?e) = card (set (keys ?e))" using d by (simp add: distinct_card)
    show ?thesis
    proof (cases "tripped RevA n (length (keys ?e))")
      case True
      have "card (set (keys ?e)) \<le> card (set (keys (errors acc)) \<union> failedIndices (x # xs))"
        using False by (intro card_mono) (auto simp: s failedIndices_Cons finite_failedIndices)
      then show ?thesis
        using True False len by (simp add: accumulate_failed tripped_def)
    next
      case nt: False
      have u: "set (keys ?e) \<union> failedIndices xs
                 = set (keys (errors acc)) \<union> failedIndices (x # xs)"
        using False by (auto simp: s failedIndices_Cons)
      show ?thesis
        using Cons.IH[of "acc\<lparr>errors := ?e\<rparr>"] d nt False u
        by (simp add: accumulate_failed)
    qed
  qed
qed

lemma mergeScan_clears_errors:
  "fst (mergeScan r n acc xs) \<noteq> None \<Longrightarrow>
   fst (mergeScan r n acc xs) = Some Multiple_Chunk_Upload_Error
   \<and> errors (snd (mergeScan r n acc xs)) = []"
proof (induction xs arbitrary: acc)
  case Nil
  then show ?case by simp
next
  case (Cons x xs)
  show ?case
  proof (cases "fst (accumulate r n acc x)")
    case None
    then obtain acc1 where a: "accumulate r n acc x = (None, acc1)"
      by (cases "accumulate r n acc x") auto
    then show ?thesis using Cons.IH[of acc1] Cons.prems by simp
  next
    case (Some e)
    then obtain acc1 where a: "accumulate r n acc x = (Some e, acc1)"
      by (cases "accumulate r n acc x") auto
    then have "e = Multiple_Chunk_Upload_Error \<and> errors acc1 = []"
      by (auto simp: accumulate_def Let_def split: if_splits)
    then show ?thesis using a by simp
  qed
qed

text \<open>
  Claim C2. In revision A, folding chunk statuses into the initial accumulator fails
  with \<open>Multiple_Chunk_Upload_Error\<close> exactly when the number of distinct failed indices
  reaches the threshold, which is 3 for more than three chunks and 1 otherwise; when it
  fails, the errors of the accumulator have been cleared.
\<close>

theorem threshold_error:
  "(fst (mergeScan RevA n \<lparr>completes = [], errors = []\<rparr> xs) = Some Multiple_Chunk_Upload_Error)
     = ((if n > 3 then 3 else 1) \<le> card (failedIndices xs))
   \<and> (fst (mergeScan RevA n \<lparr>completes = [], errors = []\<rparr> xs) \<noteq> None \<longrightarrow>
        fst (mergeScan RevA n \<lparr>completes = [], errors = []\<rparr> xs)
          = Some Multiple_Chunk_Upload_Error
        \<and> errors (snd (mergeScan RevA n \<lparr>completes = [], errors = []\<rparr> xs)) = [])"
proof -
  have "(fst (mergeScan RevA n \<lparr>completes = [], errors = []\<rparr> xs) = Some Multiple_Chunk_Upload_Error)
     = ((if n > 3 then 3 else 1) \<le> card (failedIndices xs))"
    using mergeScan_threshold_from[of "\<lparr>completes = [], errors = []\<rparr>" n xs]
    by (simp add: keys_def tripped_def)
  then show ?thesis using mergeScan_clears_errors by blast
qed

theorem threshold_error_witness:
  "fst (mergeScan RevA 5 \<lparr>completes = [], errors = []\<rparr>
         [\<lparr>index = 1, completed = False\<rparr>, \<lparr>index = 0, completed = True\<rparr>,
          \<lparr>index = 3, completed = False\<rparr>]) = None
   \<and> fst (mergeScan RevA 5 \<lparr>completes = [], errors = []\<rparr>
         [\<lparr>index = 1, completed = False\<rparr>, \<lparr>index = 3, completed = False\<rparr>,
          \<lparr>index = 4, completed = False\<rparr>]) = Some Multiple_Chunk_Upload_Error
   \<and> errors (snd (mergeScan RevA 5 \<lparr>completes = [], errors = []\<rparr>
         [\<lparr>index = 1, completed = False\<rparr>, \<lparr>index = 3, completed = False\<rparr>,
          \<lparr>index = 4, completed = False\<rparr>])) = []
   \<and> fst (mergeScan RevA 3 \<lparr>completes = [], errors = []\<rparr>
         [\<lparr>index = 2, completed = False\<rparr>]) = Some Multiple_Chunk_Upload_Error"
proof -
  define xs1 where "xs1 = [\<lparr>index = 1, completed = False\<rparr>, \<lparr>index = 0, completed = True\<rparr>,
          \<lparr>index = 3, completed = False\<rparr>]"
  define xs2 where "xs2 = [\<lparr>index = 1, completed = False\<rparr>, \<lparr>index = 3, completed = False\<rparr>,
          \<lparr>index = 4, completed = False\<rparr>]"
  define xs3 where "xs3 = [\<lparr>index = 2, completed = False\<rparr>]"
  have c1: "\<not> (if (5::nat) > 3 then 3 else 1) \<le> card (failedIndices xs1)"
    by (simp add: failedIndices_def xs1_def)
  have c2: "(if (5::nat) > 3 then 3 else 1) \<le> card (failedIndices xs2)"
    by (simp add: failedIndices_def xs2_def)
  have c3: "(if (3::nat) > 3 then 3 else 1) \<le> card (failedIndices xs3)"
    by (simp add: failedIndices_def xs3_def)
  have "fst (mergeScan RevA 5 \<lparr>completes = [], errors = []\<rparr> xs1) = None"
    using threshold_error[of 5 xs1] c1 by blast
  moreover have "fst (mergeScan RevA 5 \<lparr>completes = [], errors = []\<rparr> xs2)
                   = Some Multiple_Chunk_Upload_Error"
    using threshold_error[of 5 xs2] c2 by blast
  moreover have "errors (snd (mergeScan RevA 5 \<lparr>completes = [], errors = []\<rparr> xs2)) = []"
    using threshold_error[of 5 xs2] c2 by blast
  moreover have "fst (mergeScan RevA 3 \<lparr>completes = [], errors = []\<rparr> xs3)
                   = Some Multiple_Chunk_Upload_Error"
    using threshold_error[of 3 xs3] c3 by blast
  ultimately show ?thesis unfolding xs1_def xs2_def xs3_def by blast
qed

text \<open>Revision B: the first failed chunk raises the error, whatever the chunk count.\<close>

lemma threshold_error_revision_B:
  "(fst (mergeScan RevB n acc xs) = Some Multiple_Chunk_Upload_Error)
     = (failedIndices xs \<noteq> {})" if "errors acc = []"
  using that
proof (induction xs arbitrary: acc)
  case Nil
  then show ?case by (simp add: failedIndices_def)
next
  case (Cons x xs)
  show ?case
  proof (cases "completed x")
    case True
    then show ?thesis
      using Cons.IH[of "acc\<lparr>completes := AList.update (index x) True (completes acc)\<rparr>"]
        Cons.prems
      by (simp add: accumulate_def tripped_def keys_def failedIndices_Cons)
  next
    case False
    then show ?thesis
      by (simp add: accumulate_def tripped_def keys_def failedIndices_Cons)
  qed
qed

subsection \<open>Progress values\<close>

lemma distinctUntilChanged_subset:
  "set (distinctUntilChanged cmp key xs) \<subseteq> set xs"
  by (induction cmp key xs rule: distinctUntilChanged.induct) auto

lemma distinctUntilChanged_gt_sorted:
  fixes xs :: "rat list"
  shows "sorted (distinctUntilChanged (\<lambda>x y. x > y) key xs)
       \<and> (\<forall>k. key = Some k \<longrightarrow> (\<forall>y\<in>set (distinctUntilChanged (\<lambda>x y. x > y) key xs). k \<le> y))"
proof (induction xs arbitrary: key)
  case Nil
  then show ?case by simp
next
  case (Cons x xs)
  have ih: "sorted (distinctUntilChanged (\<lambda>x y. x > y) (Some x) xs)"
    "\<forall>y\<in>set (distinctUntilChanged (\<lambda>x y. x > y) (Some x) xs). x \<le> y"
    using Cons.IH[of "Some x"] by auto
  show ?case
  proof (cases key)
    case None
    then show ?thesis using ih by simp
  next
    case (Some k)
    show ?thesis
    proof (cases "k > x")
      case True
      then show ?thesis using Cons.IH[of "Some k"] Some by simp
    next
      case False
      then show ?thesis using ih Some by fastforce
    qed
  qed
qed

lemma mapped_prefixes:
  "mapped fsize acc cps
     = map (\<lambda>k. fraction fsize (foldl scanProgress acc (take (Suc k) cps))) [0..<length cps]"
proof (induction cps arbitrary: acc)
  case Nil
  then show ?case by simp
next
  case (Cons cp cps)
  have "[0..<length (cp # cps)] = 0 # map Suc [0..<length cps]"
    by (simp add: upt_conv_Cons map_Suc_upt del: upt_Suc)
  then show ?case
    using Cons.IH[of "scanProgress acc cp"] by (simp add: Let_def comp_def del: upt_Suc)
qed

lemma scanProgress_latest:
  "map_of (scanProgress acc cp) = (map_of acc)(chunkIndex cp \<mapsto> loaded cp)"
  by (simp add: scanProgress_def update_conv')

lemma foldl_add_sum_list:
  "foldl (\<lambda>t k. t + f k) a ks = a + sum_list (map f ks)" for a :: int
  by (induction ks arbitrary: a) auto

lemma totalLoaded_sum_list:
  "totalLoaded acc = sum_list (map (lookup acc) (keys acc))"
  by (simp add: totalLoaded_def foldl_add_sum_list)

lemma fraction_in_unit:
  "0 < fsize \<Longrightarrow> 0 \<le> totalLoaded acc \<Longrightarrow> totalLoaded acc \<le> fsize \<Longrightarrow>
   0 \<le> fraction fsize acc \<and> fraction fsize acc \<le> 1"
  by (simp add: fraction_def)

lemma distinctUntilChanged_snoc:
  "distinctUntilChanged c key (xs @ [x])
     = distinctUntilChanged c key xs
       @ (case (if distinctUntilChanged c key xs = [] then key
                else Some (last (distinctUntilChanged c key xs))) of
            None \<Rightarrow> [x]
          | Some k \<Rightarrow> if c k x then [] else [x])"
proof (induction xs arbitrary: key)
  case Nil
  then show ?case by (cases key) auto
next
  case (Cons y ys)
  show ?case
  proof (cases key)
    case None
    then show ?thesis using Cons.IH[of "Some y"] by auto
  next
    case (Some k)
    show ?thesis
    proof (cases "c k y")
      case True
      then show ?thesis using Cons.IH[of "Some k"] Some by simp
    next
      case False
      then show ?thesis using Cons.IH[of "Some y"] Some by auto
    qed
  qed
qed

lemma mapped_snoc:
  "mapped fsize acc (cps @ [cp])
     = mapped fsize acc cps @ [fraction fsize (foldl scanProgress acc (cps @ [cp]))]"
  by (induction cps arbitrary: acc) (simp_all add: Let_def)

lemma progressValues_snoc:
  "progressValues initial fileMeta (cps @ [cp])
     = progressValues initial fileMeta cps
       @ (if progressValues initial fileMeta cps = []
             \<or> last (progressValues initial fileMeta cps)
                 \<le> fraction (fileSize fileMeta) (foldl scanProgress initial (cps @ [cp]))
          then [fraction (fileSize fileMeta) (foldl scanProgress initial (cps @ [cp]))] else [])"
  unfolding progressValues_def mapped_snoc distinctUntilChanged_snoc
  by (auto simp: not_less)

text \<open>
  Claim C6, as the code has it. In one subscription of \<^verbatim>\<open>progress$\<close> with a positive
  \<open>fileSize\<close>, the emitted progress values are non-decreasing; every emitted value is the
  sum of the latest reported \<open>loaded\<close> of the chunks after some progress event, divided by
  \<open>fileSize\<close>, with no clamping; the values lie in \<open>[0, 1]\<close> whenever that sum lies
  between \<open>0\<close> and \<open>fileSize\<close> after every event; and the value of a further progress
  event is emitted exactly when nothing was emitted before or the value emitted last is
  not greater, so an equal value is emitted again.
\<close>

theorem progress_nondecreasing:
  assumes "0 < fileSize fileMeta"
  shows "sorted (progressValues initial fileMeta cps)
       \<and> (\<forall>v\<in>set (progressValues initial fileMeta cps). \<exists>k<length cps.
             v = of_int (totalLoaded (foldl scanProgress initial (take (Suc k) cps)))
                   / of_int (fileSize fileMeta))
       \<and> ((\<forall>k<length cps. 0 \<le> totalLoaded (foldl scanProgress initial (take (Suc k) cps))
              \<and> totalLoaded (foldl scanProgress initial (take (Suc k) cps)) \<le> fileSize fileMeta)
            \<longrightarrow> (\<forall>v\<in>set (progressValues initial fileMeta cps). 0 \<le> v \<and> v \<le> 1))
       \<and> progressValues initial fileMeta (cps @ [cp])
           = progressValues initial fileMeta cps
             @ (if progressValues initial fileMeta cps = []
                   \<or> last (progressValues initial fileMeta cps)
                       \<le> of_int (totalLoaded (foldl scanProgress initial (cps @ [cp])))
                           / of_int (fileSize fileMeta)
                then [of_int (totalLoaded (foldl scanProgress initial (cps @ [cp])))
                        / of_int (fileSize fileMeta)]
                else [])"
proof -
  let ?acc = "\<lambda>k. foldl scanProgress initial (take (Suc k) cps)"
  have s: "sorted (progressValues initial fileMeta cps)"
    using distinctUntilChanged_gt_sorted[of None] by (simp add: progressValues_def)
  have sub: "set (progressValues initial fileMeta cps) \<subseteq> set (mapped (fileSize fileMeta) initial cps)"
    unfolding progressValues_def by (rule distinctUntilChanged_subset)
  have m: "\<exists>k<length cps. v = fraction (fileSize fileMeta) (?acc k)"
    if "v \<in> set (progressValues initial fileMeta cps)" for v
  proof -
    have "v \<in> set (mapped (fileSize fileMeta) initial cps)" using that sub by blast
    then show ?thesis unfolding mapped_prefixes by auto
  qed
  have b: "0 \<le> v \<and> v \<le> 1"
    if h: "\<forall>k<length cps. 0 \<le> totalLoaded (?acc k) \<and> totalLoaded (?acc k) \<le> fileSize fileMeta"
      and v: "v \<in> set (progressValues initial fileMeta cps)" for v
  proof -
    obtain k where k: "k < length cps" "v = fraction (fileSize fileMeta) (?acc k)"
      using m[OF v] by blast
    then show ?thesis using fraction_in_unit[OF assms, of "?acc k"] h by blast
  qed
  note e = progressValues_snoc[of initial fileMeta cps cp, unfolded fraction_def]
  show ?thesis using s m[unfolded fraction_def] b e by blast
qed

lemma progress_example_values:
  "progressValues [] \<lparr>chunkSize = 100, chunks = 5, fileSize = 500, uploadedChunks = []\<rparr>
     [\<lparr>chunkIndex = 0, loaded = 50\<rparr>, \<lparr>chunkIndex = 1, loaded = 100\<rparr>,
      \<lparr>chunkIndex = 0, loaded = 0\<rparr>, \<lparr>chunkIndex = 0, loaded = 100\<rparr>]
   = [1 / 10, 3 / 10, 2 / 5]"
  by (simp add: progressValues_def fraction_def totalLoaded_def scanProgress_def keys_def
      lookup_def)

theorem progress_nondecreasing_witness:
  "(0::int) < 500
   \<and> sorted (progressValues [] \<lparr>chunkSize = 100, chunks = 5, fileSize = 500, uploadedChunks = []\<rparr>
       [\<lparr>chunkIndex = 0, loaded = 50\<rparr>, \<lparr>chunkIndex = 1, loaded = 100\<rparr>,
        \<lparr>chunkIndex = 0, loaded = 0\<rparr>, \<lparr>chunkIndex = 0, loaded = 100\<rparr>])"
  using progress_nondecreasing[where initial = "[]"
      and fileMeta = "\<lparr>chunkSize = 100, chunks = 5, fileSize = 500, uploadedChunks = []\<rparr>"
      and cps = "[\<lparr>chunkIndex = 0, loaded = 50\<rparr>, \<lparr>chunkIndex = 1, loaded = 100\<rparr>,
        \<lparr>chunkIndex = 0, loaded = 0\<rparr>, \<lparr>chunkIndex = 0, loaded = 100\<rparr>]"]
  by simp

text \<open>
  Claim C6 as stated fails: a progress event that repeats the previous total is emitted
  again, since the comparator drops a value only when the previous one is greater; and
  the quotient is not clamped.
\<close>

theorem progress_not_strictly_increasing:
  "progressValues [] \<lparr>chunkSize = 100, chunks = 5, fileSize = 500, uploadedChunks = []\<rparr>
     [\<lparr>chunkIndex = 0, loaded = 50\<rparr>, \<lparr>chunkIndex = 0, loaded = 50\<rparr>] = [1 / 10, 1 / 10]
   \<and> \<not> (progressValues [] \<lparr>chunkSize = 100, chunks = 5, fileSize = 500, uploadedChunks = []\<rparr>
           [\<lparr>chunkIndex = 0, loaded = 50\<rparr>, \<lparr>chunkIndex = 0, loaded = 50\<rparr>] ! 0
         < progressValues [] \<lparr>chunkSize = 100, chunks = 5, fileSize = 500, uploadedChunks = []\<rparr>
           [\<lparr>chunkIndex = 0, loaded = 50\<rparr>, \<lparr>chunkIndex = 0, loaded = 50\<rparr>] ! 1)
   \<and> progressValues [] \<lparr>chunkSize = 100, chunks = 1, fileSize = 100, uploadedChunks = []\<rparr>
         [\<lparr>chunkIndex = 0, loaded = 150\<rparr>] = [3 / 2]
   \<and> \<not> (progressValues [] \<lparr>chunkSize = 100, chunks = 1, fileSize = 100, uploadedChunks = []\<rparr>
           [\<lparr>chunkIndex = 0, loaded = 150\<rparr>] ! 0 \<le> 1)"
proof -
  have a: "progressValues [] \<lparr>chunkSize = 100, chunks = 5, fileSize = 500, uploadedChunks = []\<rparr>
     [\<lparr>chunkIndex = 0, loaded = 50\<rparr>, \<lparr>chunkIndex = 0, loaded = 50\<rparr>] = [1 / 10, 1 / 10]"
    by (simp add: progressValues_def fraction_def totalLoaded_def scanProgress_def keys_def
        lookup_def)
  have b: "progressValues [] \<lparr>chunkSize = 100, chunks = 1, fileSize = 100, uploadedChunks = []\<rparr>
         [\<lparr>chunkIndex = 0, loaded = 150\<rparr>] = [3 / 2]"
    by (simp add: progressValues_def fraction_def totalLoaded_def scanProgress_def keys_def
        lookup_def)
  show ?thesis unfolding a b by simp
qed

subsection \<open>The dispatcher\<close>

lemma single_next_fields [simp]:
  "completedFlag (single_next n d) = completedFlag d"
  "scanAcc (single_next n d) = scanAcc d"
  "buffer (single_next n d) = buffer d"
  "active (single_next n d) = active d"
  "posts (single_next n d) = posts d"
  "hasValue (single_next n d) = hasValue d"
  by (simp_all add: single_next_def Let_def)

lemma single_next_outcome:
  "outcome (single_next n d) = outcome d
   \<or> outcome (single_next n d) = Some (Error Sequence_contains_more_than_one_element)"
  by (simp add: single_next_def Let_def)

lemma source_complete_fields [simp]:
  "completedFlag (source_complete n d) = completedFlag d"
  "scanAcc (source_complete n d) = scanAcc d"
  "buffer (source_complete n d) = buffer d"
  "active (source_complete n d) = active d"
  "posts (source_complete n d) = posts d"
  "hasValue (source_complete n d) = hasValue d"
  by (simp_all add: source_complete_def Let_def)

lemma source_complete_outcome:
  "outcome (source_complete n d) = outcome d
   \<or> (outcome d = None \<and> active d = [] \<and> buffer d = []
       \<and> outcome (source_complete n d) \<noteq> None
       \<and> outcome (source_complete n d) \<noteq> Some (Error Multiple_Chunk_Upload_Error))"
  by (auto simp: source_complete_def single_next_def Let_def)

lemma mergeAll3_props:
  "mergeAll3 flag buf act ps = (buf', act', ps') \<Longrightarrow>
   \<forall>i\<in>set buf. flag i = flag0 i \<Longrightarrow>
   ps' @ filter (\<lambda>i. \<not> flag0 i) buf' = ps @ filter (\<lambda>i. \<not> flag0 i) buf
   \<and> (\<exists>pre. buf = pre @ buf' \<and> set act' \<subseteq> set act \<union> set pre)"
proof (induction flag buf act ps rule: mergeAll3.induct)
  case (1 flag act ps)
  then show ?case by simp
next
  case (2 flag i buf act ps)
  show ?case
  proof (cases "length act < 3")
    case False
    then show ?thesis using "2.prems" by auto
  next
    case True
    show ?thesis
    proof (cases "flag i")
      case t: True
      then have m: "mergeAll3 flag buf act ps = (buf', act', ps')"
        using "2.prems"(1) True by simp
      have f: "\<forall>j\<in>set buf. flag j = flag0 j" using "2.prems"(2) by simp
      obtain pre where p: "buf = pre @ buf'" "set act' \<subseteq> set act \<union> set pre"
        and q: "ps' @ filter (\<lambda>i. \<not> flag0 i) buf' = ps @ filter (\<lambda>i. \<not> flag0 i) buf"
        using "2.IH"(1)[OF True t m f] by blast
      have "i # buf = (i # pre) @ buf'" "set act' \<subseteq> set act \<union> set (i # pre)"
        using p by auto
      moreover have "flag0 i" using t "2.prems"(2) by simp
      ultimately show ?thesis using q by (metis filter.simps(2))
    next
      case f: False
      then have m: "mergeAll3 flag buf (act @ [i]) (ps @ [i]) = (buf', act', ps')"
        using "2.prems"(1) True by simp
      have fl: "\<forall>j\<in>set buf. flag j = flag0 j" using "2.prems"(2) by simp
      obtain pre where p: "buf = pre @ buf'" "set act' \<subseteq> set (act @ [i]) \<union> set pre"
        and q: "ps' @ filter (\<lambda>i. \<not> flag0 i) buf'
                  = (ps @ [i]) @ filter (\<lambda>i. \<not> flag0 i) buf"
        using "2.IH"(2)[OF True f m fl] by blast
      have "i # buf = (i # pre) @ buf'" "set act' \<subseteq> set act \<union> set (i # pre)"
        using p by auto
      moreover have "\<not> flag0 i" using f "2.prems"(2) by simp
      ultimately show ?thesis using q by (metis append.assoc append_Cons append_Nil filter.simps(2))
    qed
  qed
qed

lemma dispatch_inv_refill:
  assumes inv: "dispatch_inv n flag0 d" and o: "outcome d' = None"
    and fl: "\<forall>i\<in>set (buffer d). completedFlag d' i = flag0 i"
    and act: "set act \<subseteq> set (active d)"
    and m: "mergeAll3 (completedFlag d') (buffer d) act (posts d) = (buf', act', ps')"
  shows "dispatch_inv n flag0
           (source_complete n (d'\<lparr>buffer := buf', active := act', posts := ps'\<rparr>))"
proof -
  obtain pre where p: "buffer d = pre @ buf'" "set act' \<subseteq> set act \<union> set pre"
    and q: "ps' @ filter (\<lambda>i. \<not> flag0 i) buf' = posts d @ filter (\<lambda>i. \<not> flag0 i) (buffer d)"
    using mergeAll3_props[OF m fl] by blast
  let ?d = "d'\<lparr>buffer := buf', active := act', posts := ps'\<rparr>"
  have d: "distinct (buffer d)" and a: "set (active d) \<inter> set (buffer d) = {}"
    using inv by (auto simp: dispatch_inv_def)
  have 1: "ps' @ filter (\<lambda>i. \<not> flag0 i) buf' = filter (\<lambda>i. \<not> flag0 i) [0..<n]"
    using q inv by (simp add: dispatch_inv_def)
  have 2: "\<forall>i\<in>set buf'. completedFlag d' i = flag0 i" using fl p by auto
  have 3: "distinct buf'" using d p by auto
  have 4: "set act' \<inter> set buf' = {}" using p a d act by auto
  have 5: "outcome (source_complete n ?d) = Some (Next_Complete v) \<Longrightarrow> buf' = []" for v
    using source_complete_outcome[of n ?d] o by auto
  show ?thesis
    unfolding dispatch_inv_def using 1 2 3 4 5 by simp
qed

lemma dispatch_inv_subscribe: "dispatch_inv n flag (subscribe n flag seed)"
proof -
  obtain buf act ps where m: "mergeAll3 flag [0..<n] [] [] = (buf, act, ps)"
    by (cases "mergeAll3 flag [0..<n] [] []") auto
  let ?d0 = "\<lparr>completedFlag = flag, scanAcc = seed, buffer = [0..<n], active = [], posts = [],
             hasValue = False, singleIndex = 0, seenValue = False, outcome = None\<rparr>"
  have i0: "dispatch_inv n flag ?d0" by (simp add: dispatch_inv_def)
  have "dispatch_inv n flag
          (source_complete n (?d0\<lparr>buffer := buf, active := act, posts := ps\<rparr>))"
    by (rule dispatch_inv_refill[OF i0, of ?d0 "[]"]) (use m in simp_all)
  then show ?thesis by (simp add: subscribe_def m)
qed

lemma respond_ignored:
  "outcome d \<noteq> None \<or> i \<notin> set (active d) \<Longrightarrow> respond r n d (i, ok) = d"
  by (auto simp: respond_def)

lemma respond_throw:
  assumes "outcome d = None" "i \<in> set (active d)"
    and "accumulate r n (scanAcc d) \<lparr>index = i, completed = ok\<rparr> = (Some e, acc1)"
  shows "respond r n d (i, ok)
           = d\<lparr>completedFlag := (if ok then (completedFlag d)(i := True) else completedFlag d),
               scanAcc := acc1, outcome := Some (Error e)\<rparr>"
  using assms by (simp add: respond_def Let_def)

lemma respond_emit:
  assumes "outcome d = None" "i \<in> set (active d)"
    and "accumulate r n (scanAcc d) \<lparr>index = i, completed = ok\<rparr> = (None, acc1)"
    and "d2 = single_next n
               (d\<lparr>completedFlag := (if ok then (completedFlag d)(i := True) else completedFlag d),
                  scanAcc := acc1, hasValue := True\<rparr>)"
    and "mergeAll3 (completedFlag d2) (buffer d) (removeAll i (active d)) (posts d)
           = (buf, act, ps)"
  shows "respond r n d (i, ok)
           = (if outcome d2 \<noteq> None then d2
              else source_complete n (d2\<lparr>buffer := buf, active := act, posts := ps\<rparr>))"
  using assms by (simp add: respond_def Let_def)

lemma dispatch_inv_respond:
  assumes inv: "dispatch_inv n flag0 d"
  shows "dispatch_inv n flag0 (respond r n d ev)"
proof -
  obtain i ok where ev: "ev = (i, ok)" by (cases ev)
  show ?thesis
  proof (cases "outcome d \<noteq> None \<or> i \<notin> set (active d)")
    case True
    then show ?thesis using inv by (simp add: ev respond_ignored)
  next
    case False
    then have o: "outcome d = None" and a: "i \<in> set (active d)" by auto
    have nb: "i \<notin> set (buffer d)" using inv a by (auto simp: dispatch_inv_def)
    let ?flag = "if ok then (completedFlag d)(i := True) else completedFlag d"
    have fl: "\<forall>j\<in>set (buffer d). ?flag j = flag0 j"
      using inv nb by (auto simp: dispatch_inv_def)
    obtain e acc1 where acc: "accumulate r n (scanAcc d) \<lparr>index = i, completed = ok\<rparr> = (e, acc1)"
      by (cases "accumulate r n (scanAcc d) \<lparr>index = i, completed = ok\<rparr>") auto
    show ?thesis
    proof (cases e)
      case (Some err)
      show ?thesis
        using inv fl unfolding ev respond_throw[OF o a acc[unfolded Some]]
        by (simp add: dispatch_inv_def)
    next
      case None
      define d2 where "d2 = single_next n (d\<lparr>completedFlag := ?flag, scanAcc := acc1, hasValue := True\<rparr>)"
      obtain buf act ps where m:
        "mergeAll3 (completedFlag d2) (buffer d) (removeAll i (active d)) (posts d) = (buf, act, ps)"
        by (cases "mergeAll3 (completedFlag d2) (buffer d) (removeAll i (active d)) (posts d)") auto
      have r: "respond r n d (i, ok)
                 = (if outcome d2 \<noteq> None then d2
                    else source_complete n (d2\<lparr>buffer := buf, active := act, posts := ps\<rparr>))"
        by (rule respond_emit[OF o a acc[unfolded None] d2_def m])
      have cf: "completedFlag d2 = ?flag" by (simp add: d2_def)
      show ?thesis
      proof (cases "outcome d2 \<noteq> None")
        case True
        have "outcome d2 = Some (Error Sequence_contains_more_than_one_element)"
          using True single_next_outcome[of n "d\<lparr>completedFlag := ?flag, scanAcc := acc1, hasValue := True\<rparr>"] o
          by (auto simp: d2_def)
        then have "dispatch_inv n flag0 d2"
          using inv fl by (simp add: dispatch_inv_def d2_def)
        then show ?thesis using True by (simp add: ev r)
      next
        case False
        then have o2: "outcome d2 = None" by simp
        have fl2: "\<forall>j\<in>set (buffer d). completedFlag d2 j = flag0 j" using fl cf by simp
        have "dispatch_inv n flag0 (source_complete n (d2\<lparr>buffer := buf, active := act, posts := ps\<rparr>))"
          by (rule dispatch_inv_refill[OF inv o2 fl2 _ m]) auto
        then show ?thesis using False by (simp add: ev r)
      qed
    qed
  qed
qed

lemma dispatch_inv_foldl:
  "dispatch_inv n flag0 d \<Longrightarrow> dispatch_inv n flag0 (foldl (respond r n) d evs)"
  by (induction evs arbitrary: d) (auto simp: dispatch_inv_respond)

lemma dispatch_inv_run:
  "dispatch_inv (length chunkList) (initiallyCompleted r fileMeta) (run r chunkList fileMeta evs)"
  unfolding run_def uploadAllChunks_def
  by (rule dispatch_inv_foldl) (rule dispatch_inv_subscribe)

lemma length_filter_not_in:
  assumes "set S \<subseteq> {..<n}"
  shows "length (filter (\<lambda>i. i \<notin> set S) [0..<n]) = n - card (set S)"
proof -
  have "distinct (filter (\<lambda>i. i \<notin> set S) [0..<n])" by simp
  then have "length (filter (\<lambda>i. i \<notin> set S) [0..<n]) = card (set (filter (\<lambda>i. i \<notin> set S) [0..<n]))"
    by (rule distinct_card[symmetric])
  also have "set (filter (\<lambda>i. i \<notin> set S) [0..<n]) = {..<n} - set S" by auto
  also have "card ({..<n} - set S) = card {..<n} - card (set S)"
    using assms by (intro card_Diff_subset) auto
  finally show ?thesis by simp
qed

text \<open>
  Claim C4. In revision A, no chunk whose index is in \<open>uploadedChunks\<close> is ever POSTed,
  and a run that completes without error has POSTed exactly the chunks whose index is
  not in \<open>uploadedChunks\<close>, each once, in index order; with \<open>uploadedChunks\<close> within
  the chunk indices that is \<open>chunks - |uploadedChunks|\<close> POSTs.
\<close>

theorem uploaded_chunks_skipped:
  "(\<forall>i\<in>set (uploadedChunks fileMeta). i \<notin> set (posts (run RevA chunkList fileMeta evs)))
   \<and> (outcome (run RevA chunkList fileMeta evs) = Some (Next_Complete v) \<longrightarrow>
        posts (run RevA chunkList fileMeta evs)
          = filter (\<lambda>i. i \<notin> set (uploadedChunks fileMeta)) [0..<length chunkList]
        \<and> (set (uploadedChunks fileMeta) \<subseteq> {..<length chunkList} \<longrightarrow>
             length (posts (run RevA chunkList fileMeta evs))
               = length chunkList - card (set (uploadedChunks fileMeta))))"
proof -
  let ?d = "run RevA chunkList fileMeta evs"
  let ?S = "set (uploadedChunks fileMeta)"
  have inv: "dispatch_inv (length chunkList) (\<lambda>i. i \<in> ?S) ?d"
    using dispatch_inv_run[of chunkList RevA fileMeta evs]
    by (simp add: initiallyCompleted_def[abs_def])
  then have pre: "posts ?d @ filter (\<lambda>i. i \<notin> ?S) (buffer ?d)
                    = filter (\<lambda>i. i \<notin> ?S) [0..<length chunkList]"
    by (simp add: dispatch_inv_def)
  have "set (posts ?d) \<subseteq> set (filter (\<lambda>i. i \<notin> ?S) [0..<length chunkList])"
    using pre by (metis set_append sup_ge1)
  then have skip: "\<forall>i\<in>?S. i \<notin> set (posts ?d)" by auto
  have full: "posts ?d = filter (\<lambda>i. i \<notin> ?S) [0..<length chunkList]"
    if "outcome ?d = Some (Next_Complete v)"
  proof -
    have "buffer ?d = []" using inv that by (simp add: dispatch_inv_def)
    then show ?thesis using pre by simp
  qed
  show ?thesis using skip full length_filter_not_in[of "uploadedChunks fileMeta" "length chunkList"]
    by simp
qed

theorem uploaded_chunks_skipped_witness:
  "outcome (run RevA [[1], [2], [3], [4], [5::nat]]
       \<lparr>chunkSize = 1, chunks = 5, fileSize = 5, uploadedChunks = [0, 2, 4]\<rparr>
       [(1, True), (3, True)]) = Some (Next_Complete None)
   \<and> posts (run RevA [[1], [2], [3], [4], [5::nat]]
       \<lparr>chunkSize = 1, chunks = 5, fileSize = 5, uploadedChunks = [0, 2, 4]\<rparr>
       [(1, True), (3, True)]) = [1, 3]
   \<and> length (posts (run RevA [[1], [2], [3], [4], [5::nat]]
       \<lparr>chunkSize = 1, chunks = 5, fileSize = 5, uploadedChunks = [0, 2, 4]\<rparr>
       [(1, True), (3, True)])) = 5 - 3"
proof -
  define d where "d = run RevA [[1], [2], [3], [4], [5::nat]]
       \<lparr>chunkSize = 1, chunks = 5, fileSize = 5, uploadedChunks = [0, 2, 4]\<rparr>
       [(1, True), (3, True)]"
  have o: "outcome d = Some (Next_Complete None)" unfolding d_def by code_simp
  have s: "set (uploadedChunks \<lparr>chunkSize = 1, chunks = 5, fileSize = 5, uploadedChunks = [0, 2, 4]\<rparr>)
             \<subseteq> {..<length [[1], [2], [3], [4], [5::nat]]}"
    by simp
  have c: "card (set (uploadedChunks
             \<lparr>chunkSize = 1, chunks = 5, fileSize = 5, uploadedChunks = [0, 2, 4]\<rparr>)) = 3"
    by simp
  have f: "filter (\<lambda>i. i \<notin> set (uploadedChunks
             \<lparr>chunkSize = 1, chunks = 5, fileSize = 5, uploadedChunks = [0, 2, 4]\<rparr>))
             [0..<length [[1], [2], [3], [4], [5::nat]]] = [1, 3]"
    by code_simp
  have l: "length [[1], [2], [3], [4], [5::nat]] = 5" by simp
  note t = uploaded_chunks_skipped[of "\<lparr>chunkSize = 1, chunks = 5, fileSize = 5, uploadedChunks = [0, 2, 4]\<rparr>"
      "[[1], [2], [3], [4], [5::nat]]" "[(1, True), (3, True)]" None, folded d_def]
  have "posts d = [1, 3]" using t o f by metis
  moreover have "length (posts d) = 5 - 3" using t o s c l by metis
  ultimately show ?thesis using o unfolding d_def by blast
qed

text \<open>
  Revision B starts every \<^verbatim>\<open>completed\<close> flag from \<^verbatim>\<open>false\<close>: a run that completes has
  POSTed every chunk, whatever \<open>uploadedChunks\<close> holds.
\<close>

lemma revision_B_posts_every_chunk:
  assumes "outcome (run RevB chunkList fileMeta evs) = Some (Next_Complete v)"
  shows "posts (run RevB chunkList fileMeta evs) = [0..<length chunkList]"
proof -
  let ?d = "run RevB chunkList fileMeta evs"
  have inv: "dispatch_inv (length chunkList) (\<lambda>i. False) ?d"
    using dispatch_inv_run[of chunkList RevB fileMeta evs]
    by (simp add: initiallyCompleted_def[abs_def])
  then have "buffer ?d = []" using assms by (simp add: dispatch_inv_def)
  then show ?thesis using inv by (simp add: dispatch_inv_def)
qed

text \<open>
  Claim C1, evaluated on a resumed upload. Five chunks, \<open>uploadedChunks = [0, 2, 4]\<close>,
  and the POSTs of chunks 1 and 3 succeed. The accumulator starts empty whatever
  \<open>uploadedChunks\<close> holds; at the end of the run \<open>completes\<close> has the two keys 1 and 3,
  the predicate of \<^verbatim>\<open>single\<close> has matched no accumulator, and what the observable
  delivers is \<^verbatim>\<open>undefined\<close>.
\<close>

theorem resumed_run_completes_not_seeded:
  "scanAcc (uploadAllChunks RevA [[1], [2], [3], [4], [5::nat]]
       \<lparr>chunkSize = 1, chunks = 5, fileSize = 5, uploadedChunks = [0, 2, 4]\<rparr>)
     = \<lparr>completes = [], errors = []\<rparr>
   \<and> scanAcc (run RevA [[1], [2], [3], [4], [5::nat]]
       \<lparr>chunkSize = 1, chunks = 5, fileSize = 5, uploadedChunks = [0, 2, 4]\<rparr>
       [(1, True), (3, True)])
     = \<lparr>completes = [(1, True), (3, True)], errors = []\<rparr>
   \<and> \<not> allCompleted 5 (scanAcc (run RevA [[1], [2], [3], [4], [5::nat]]
       \<lparr>chunkSize = 1, chunks = 5, fileSize = 5, uploadedChunks = [0, 2, 4]\<rparr>
       [(1, True), (3, True)]))
   \<and> \<not> seenValue (run RevA [[1], [2], [3], [4], [5::nat]]
       \<lparr>chunkSize = 1, chunks = 5, fileSize = 5, uploadedChunks = [0, 2, 4]\<rparr>
       [(1, True), (3, True)])
   \<and> outcome (run RevA [[1], [2], [3], [4], [5::nat]]
       \<lparr>chunkSize = 1, chunks = 5, fileSize = 5, uploadedChunks = [0, 2, 4]\<rparr>
       [(1, True), (3, True)]) = Some (Next_Complete None)"
  by code_simp

text \<open>The seed of the accumulator does not depend on \<open>fileMeta\<close>, in either revision.\<close>

lemma seed_is_empty:
  "scanAcc (uploadAllChunks r chunkList fileMeta) = \<lparr>completes = [], errors = []\<rparr>"
  by (simp add: uploadAllChunks_def subscribe_def split: prod.split)

subsection \<open>Resumed uploads never satisfy the predicate\<close>

lemma mergeAll3_posted:
  "mergeAll3 flag buf act ps = (buf', act', ps') \<Longrightarrow> set act \<subseteq> set ps \<Longrightarrow>
   set act' \<subseteq> set ps' \<and> set ps \<subseteq> set ps'"
proof (induction flag buf act ps rule: mergeAll3.induct)
  case (1 flag act ps)
  then show ?case by simp
next
  case (2 flag i buf act ps)
  show ?case
  proof (cases "length act < 3")
    case False
    then show ?thesis using "2.prems" by auto
  next
    case True
    show ?thesis
    proof (cases "flag i")
      case t: True
      then show ?thesis using "2.IH"(1)[OF True t] "2.prems" True by simp
    next
      case f: False
      have "set (act @ [i]) \<subseteq> set (ps @ [i])" using "2.prems"(2) by auto
      then show ?thesis using "2.IH"(2)[OF True f] "2.prems"(1) True f by auto
    qed
  qed
qed

lemma accumulate_completes:
  "accumulate r n acc \<lparr>index = i, completed = ok\<rparr> = (e, acc1) \<Longrightarrow>
   set (keys (completes acc1)) \<subseteq> insert i (set (keys (completes acc)))
   \<and> (distinct (keys (completes acc)) \<longrightarrow> distinct (keys (completes acc1)))"
  by (auto simp: accumulate_def Let_def keys_update distinct_keys_update split: if_splits)

lemma completes_inv_respond:
  assumes inv: "completes_inv d"
  shows "completes_inv (respond r n d ev)"
proof -
  obtain i ok where ev: "ev = (i, ok)" by (cases ev)
  show ?thesis
  proof (cases "outcome d \<noteq> None \<or> i \<notin> set (active d)")
    case True
    then show ?thesis using inv by (simp add: ev respond_ignored)
  next
    case False
    then have o: "outcome d = None" and a: "i \<in> set (active d)" by auto
    have ip: "i \<in> set (posts d)" using inv a by (auto simp: completes_inv_def)
    obtain e acc1 where acc: "accumulate r n (scanAcc d) \<lparr>index = i, completed = ok\<rparr> = (e, acc1)"
      by (cases "accumulate r n (scanAcc d) \<lparr>index = i, completed = ok\<rparr>") auto
    have k: "set (keys (completes acc1)) \<subseteq> set (posts d)" "distinct (keys (completes acc1))"
      using accumulate_completes[OF acc] inv ip by (auto simp: completes_inv_def)
    show ?thesis
    proof (cases e)
      case (Some err)
      show ?thesis
        using inv k unfolding ev respond_throw[OF o a acc[unfolded Some]]
        by (simp add: completes_inv_def)
    next
      case None
      define d2 where "d2 = single_next n
          (d\<lparr>completedFlag := (if ok then (completedFlag d)(i := True) else completedFlag d),
             scanAcc := acc1, hasValue := True\<rparr>)"
      obtain buf act ps where m:
        "mergeAll3 (completedFlag d2) (buffer d) (removeAll i (active d)) (posts d) = (buf, act, ps)"
        by (cases "mergeAll3 (completedFlag d2) (buffer d) (removeAll i (active d)) (posts d)") auto
      have r: "respond r n d (i, ok)
                 = (if outcome d2 \<noteq> None then d2
                    else source_complete n (d2\<lparr>buffer := buf, active := act, posts := ps\<rparr>))"
        by (rule respond_emit[OF o a acc[unfolded None] d2_def m])
      have "set (removeAll i (active d)) \<subseteq> set (posts d)"
        using inv by (auto simp: completes_inv_def)
      then have p: "set act \<subseteq> set ps" "set (posts d) \<subseteq> set ps"
        using mergeAll3_posted[OF m] by auto
      have c2: "completes_inv d2"
        using inv k by (simp add: completes_inv_def d2_def)
      have c3: "completes_inv (source_complete n (d2\<lparr>buffer := buf, active := act, posts := ps\<rparr>))"
        using k p by (auto simp: completes_inv_def d2_def)
      show ?thesis using c2 c3 by (simp add: ev r)
    qed
  qed
qed

lemma completes_inv_run: "completes_inv (run r chunkList fileMeta evs)"
proof -
  have f: "completes_inv d \<Longrightarrow> completes_inv (foldl (respond r n) d evs)" for d n
    by (induction evs arbitrary: d) (auto simp: completes_inv_respond)
  obtain buf act ps where m:
    "mergeAll3 (initiallyCompleted r fileMeta) [0..<length chunkList] [] [] = (buf, act, ps)"
    by (cases "mergeAll3 (initiallyCompleted r fileMeta) [0..<length chunkList] [] []") auto
  have "set act \<subseteq> set ps" using mergeAll3_posted[OF m] by simp
  then have "completes_inv (uploadAllChunks r chunkList fileMeta)"
    by (simp add: completes_inv_def uploadAllChunks_def subscribe_def m keys_def)
  then show ?thesis unfolding run_def by (rule f)
qed

text \<open>
  In revision A, with a non-empty \<open>uploadedChunks\<close> within the chunk indices, no
  accumulator of any run has as many keys in \<open>completes\<close> as there are chunks: the
  predicate handed to \<^verbatim>\<open>single\<close> holds at no moment of a resumed upload.
\<close>

lemma resumed_run_never_all_completed:
  assumes "uploadedChunks fileMeta \<noteq> []"
    and "set (uploadedChunks fileMeta) \<subseteq> {..<length chunkList}"
  shows "\<not> allCompleted (length chunkList) (scanAcc (run RevA chunkList fileMeta evs))"
proof -
  let ?d = "run RevA chunkList fileMeta evs"
  let ?S = "set (uploadedChunks fileMeta)"
  let ?n = "length chunkList"
  have c: "set (keys (completes (scanAcc ?d))) \<subseteq> set (posts ?d)"
    "distinct (keys (completes (scanAcc ?d)))"
    using completes_inv_run[of RevA chunkList fileMeta evs] by (auto simp: completes_inv_def)
  have "posts ?d @ filter (\<lambda>i. i \<notin> ?S) (buffer ?d) = filter (\<lambda>i. i \<notin> ?S) [0..<?n]"
    using dispatch_inv_run[of chunkList RevA fileMeta evs]
    by (simp add: dispatch_inv_def initiallyCompleted_def[abs_def])
  then have "set (posts ?d) \<subseteq> set (filter (\<lambda>i. i \<notin> ?S) [0..<?n])"
    by (metis set_append sup_ge1)
  then have "set (keys (completes (scanAcc ?d))) \<subseteq> {..<?n} - ?S" using c(1) by auto
  then have "card (set (keys (completes (scanAcc ?d)))) \<le> card ({..<?n} - ?S)"
    by (intro card_mono) auto
  also have "card ({..<?n} - ?S) = ?n - card ?S"
    using assms(2) by (simp add: card_Diff_subset)
  also have "\<dots> < ?n"
  proof -
    have "0 < card ?S" using assms(1) by (simp add: card_gt_0_iff)
    moreover have "card ?S \<le> ?n" using assms(2) by (metis card_lessThan card_mono finite_lessThan)
    ultimately show ?thesis by simp
  qed
  finally show ?thesis using c(2) by (simp add: allCompleted_def distinct_card)
qed

subsection \<open>Tolerated failures\<close>

lemma respond_tolerates:
  assumes inv: "acc_inv F S d" and fin: "finite F'"
    and sub: "F \<union> (if ok then {} else {i}) \<subseteq> F'" and few: "card F' < 3" and n: "3 < n"
    and o: "outcome d \<noteq> Some (Error Multiple_Chunk_Upload_Error)"
  shows "outcome (respond RevA n d (i, ok)) \<noteq> Some (Error Multiple_Chunk_Upload_Error)
       \<and> acc_inv (F \<union> (if ok then {} else {i})) (S \<union> (if ok then {i} else {}))
           (respond RevA n d (i, ok))"
proof (cases "outcome d \<noteq> None \<or> i \<notin> set (active d)")
  case True
  then show ?thesis using inv o by (auto simp: respond_ignored acc_inv_def)
next
  case False
  then have od: "outcome d = None" and a: "i \<in> set (active d)" by auto
  let ?x = "\<lparr>index = i, completed = ok\<rparr>"
  let ?acc1 = "if ok then (scanAcc d)\<lparr>completes := AList.update i True (completes (scanAcc d))\<rparr>
               else (scanAcc d)\<lparr>errors := AList.update i True (errors (scanAcc d))\<rparr>"
  have d1: "distinct (keys (errors ?acc1))"
    using inv by (auto simp: acc_inv_def distinct_keys_update)
  have s1: "set (keys (errors ?acc1)) \<subseteq> F \<union> (if ok then {} else {i})"
    using inv by (auto simp: acc_inv_def keys_update)
  have c1: "set (keys (completes ?acc1)) \<subseteq> S \<union> (if ok then {i} else {})"
    using inv by (auto simp: acc_inv_def keys_update)
  have "card (set (keys (errors ?acc1))) \<le> card F'"
    using s1 sub fin by (intro card_mono) auto
  then have len: "length (keys (errors ?acc1)) < 3"
    using d1 few by (simp add: distinct_card)
  then have nt: "\<not> tripped RevA n (length (keys (errors ?acc1)))"
    using n by (simp add: tripped_def)
  have acc: "accumulate RevA n (scanAcc d) ?x = (None, ?acc1)"
    using nt by (cases ok) (simp_all add: accumulate_def Let_def)
  define d2 where "d2 = single_next n
      (d\<lparr>completedFlag := (if ok then (completedFlag d)(i := True) else completedFlag d),
         scanAcc := ?acc1, hasValue := True\<rparr>)"
  obtain buf act ps where m:
    "mergeAll3 (completedFlag d2) (buffer d) (removeAll i (active d)) (posts d) = (buf, act, ps)"
    by (cases "mergeAll3 (completedFlag d2) (buffer d) (removeAll i (active d)) (posts d)") auto
  let ?d3 = "source_complete n (d2\<lparr>buffer := buf, active := act, posts := ps\<rparr>)"
  have r: "respond RevA n d (i, ok) = (if outcome d2 \<noteq> None then d2 else ?d3)"
    by (rule respond_emit[OF od a acc d2_def m])
  have sa: "scanAcc (respond RevA n d (i, ok)) = ?acc1"
    unfolding r by (simp add: d2_def)
  have o2: "outcome d2 \<noteq> Some (Error Multiple_Chunk_Upload_Error)"
    using single_next_outcome[of n "d\<lparr>completedFlag := (if ok then (completedFlag d)(i := True)
        else completedFlag d), scanAcc := ?acc1, hasValue := True\<rparr>"] od
    by (auto simp: d2_def)
  have o3: "outcome d2 = None \<Longrightarrow> outcome ?d3 \<noteq> Some (Error Multiple_Chunk_Upload_Error)"
    using source_complete_outcome[of n "d2\<lparr>buffer := buf, active := act, posts := ps\<rparr>"]
    by auto
  have "outcome (respond RevA n d (i, ok)) \<noteq> Some (Error Multiple_Chunk_Upload_Error)"
    unfolding r using o2 o3 by auto
  moreover have "acc_inv (F \<union> (if ok then {} else {i})) (S \<union> (if ok then {i} else {}))
                   (respond RevA n d (i, ok))"
    unfolding acc_inv_def sa using d1 s1 c1 by blast
  ultimately show ?thesis by blast
qed

lemma failedChunks_Cons:
  "failedChunks ((i, ok) # evs) = (if ok then {} else {i}) \<union> failedChunks evs"
  by (auto simp: failedChunks_def)

lemma succeededChunks_Cons:
  "succeededChunks ((i, ok) # evs) = (if ok then {i} else {}) \<union> succeededChunks evs"
  by (auto simp: succeededChunks_def)

lemma foldl_tolerates:
  "acc_inv F S d \<Longrightarrow> finite F \<Longrightarrow> card (F \<union> failedChunks evs) < 3 \<Longrightarrow> 3 < n \<Longrightarrow>
   outcome d \<noteq> Some (Error Multiple_Chunk_Upload_Error) \<Longrightarrow>
   outcome (foldl (respond RevA n) d evs) \<noteq> Some (Error Multiple_Chunk_Upload_Error)
   \<and> acc_inv (F \<union> failedChunks evs) (S \<union> succeededChunks evs) (foldl (respond RevA n) d evs)"
proof (induction evs arbitrary: d F S)
  case Nil
  then show ?case by (simp add: failedChunks_def succeededChunks_def)
next
  case (Cons ev evs)
  obtain i ok where ev: "ev = (i, ok)" by (cases ev)
  let ?F1 = "F \<union> (if ok then {} else {i})"
  let ?S1 = "S \<union> (if ok then {i} else {})"
  let ?F' = "F \<union> failedChunks (ev # evs)"
  have fin': "finite ?F'" using Cons.prems(2) by (simp add: failedChunks_def)
  have sub: "?F1 \<subseteq> ?F'" by (auto simp: ev failedChunks_Cons)
  have step: "outcome (respond RevA n d (i, ok)) \<noteq> Some (Error Multiple_Chunk_Upload_Error)
       \<and> acc_inv ?F1 ?S1 (respond RevA n d (i, ok))"
    by (rule respond_tolerates[OF Cons.prems(1) fin' sub Cons.prems(3) Cons.prems(4) Cons.prems(5)])
  have e1: "?F1 \<union> failedChunks evs = ?F'" by (auto simp: ev failedChunks_Cons)
  have e2: "?S1 \<union> succeededChunks evs = S \<union> succeededChunks (ev # evs)"
    by (auto simp: ev succeededChunks_Cons)
  have fin1: "finite ?F1" using Cons.prems(2) by simp
  have "outcome (foldl (respond RevA n) (respond RevA n d (i, ok)) evs)
          \<noteq> Some (Error Multiple_Chunk_Upload_Error)
        \<and> acc_inv (?F1 \<union> failedChunks evs) (?S1 \<union> succeededChunks evs)
            (foldl (respond RevA n) (respond RevA n d (i, ok)) evs)"
    using Cons.IH[of ?F1 ?S1 "respond RevA n d (i, ok)"] step fin1 Cons.prems(3,4)
    unfolding e1 by blast
  then show ?case unfolding e1 e2 by (simp add: ev)
qed

lemma subscribe_no_multiple:
  "outcome (subscribe n flag seed) \<noteq> Some (Error Multiple_Chunk_Upload_Error)"
proof -
  obtain buf act ps where m: "mergeAll3 flag [0..<n] [] [] = (buf, act, ps)"
    by (cases "mergeAll3 flag [0..<n] [] []") auto
  show ?thesis
    using source_complete_outcome[of n "\<lparr>completedFlag = flag, scanAcc = seed, buffer = buf,
        active = act, posts = ps, hasValue = False, singleIndex = 0, seenValue = False,
        outcome = None\<rparr>"]
    by (auto simp: subscribe_def m)
qed

text \<open>
  In a run of revision A over more than three chunks in which fewer than three distinct
  chunks fail, no \<open>Multiple_Chunk_Upload_Error\<close> is raised; every chunk is POSTed at
  most once in the run, so a chunk that failed is not dispatched again within it; and
  \<open>completes\<close> holds only indices of chunks whose POST succeeded.
\<close>

lemma tolerated_failures_not_redispatched:
  assumes "3 < length chunkList" and "card (failedChunks evs) < 3"
  shows "outcome (run RevA chunkList fileMeta evs) \<noteq> Some (Error Multiple_Chunk_Upload_Error)
       \<and> distinct (posts (run RevA chunkList fileMeta evs))
       \<and> set (keys (completes (scanAcc (run RevA chunkList fileMeta evs))))
           \<subseteq> succeededChunks evs"
proof -
  let ?d0 = "uploadAllChunks RevA chunkList fileMeta"
  have a0: "acc_inv {} {} ?d0" by (simp add: acc_inv_def seed_is_empty keys_def)
  have o0: "outcome ?d0 \<noteq> Some (Error Multiple_Chunk_Upload_Error)"
    unfolding uploadAllChunks_def by (rule subscribe_no_multiple)
  have t: "outcome (run RevA chunkList fileMeta evs) \<noteq> Some (Error Multiple_Chunk_Upload_Error)
       \<and> acc_inv ({} \<union> failedChunks evs) ({} \<union> succeededChunks evs)
           (run RevA chunkList fileMeta evs)"
    unfolding run_def
    by (rule foldl_tolerates[OF a0 _ _ assms(1) o0]) (use assms(2) in simp_all)
  have "distinct (posts (run RevA chunkList fileMeta evs)
          @ filter (\<lambda>i. \<not> initiallyCompleted RevA fileMeta i)
              (buffer (run RevA chunkList fileMeta evs)))"
    using dispatch_inv_run[of chunkList RevA fileMeta evs] by (simp add: dispatch_inv_def)
  then have "distinct (posts (run RevA chunkList fileMeta evs))" by simp
  then show ?thesis using t by (simp add: acc_inv_def)
qed

text \<open>
  Claim C3, evaluated. Five chunks, none uploaded before; the POSTs of chunks 1 and 3
  fail, those of chunks 0, 2 and 4 succeed, and no further response arrives because no
  further POST is issued. The two failures stay under the threshold, so no error is
  raised. Each chunk has been POSTed once: chunks 1 and 3 are not dispatched again and
  their \<^verbatim>\<open>completed\<close> flags stay unset. \<open>completes\<close> holds 0, 2 and 4 only, the
  predicate of \<^verbatim>\<open>single\<close> has matched no accumulator, the observable delivers
  \<^verbatim>\<open>undefined\<close>, and the session-finish POST is issued with chunks 1 and 3 never
  uploaded.
\<close>

theorem tolerated_failures_finish_without_upload:
  "posts (run RevA [[1], [2], [3], [4], [5::nat]]
       \<lparr>chunkSize = 1, chunks = 5, fileSize = 5, uploadedChunks = []\<rparr>
       [(0, True), (1, False), (2, True), (3, False), (4, True)])
     = [0, 1, 2, 3, 4]
   \<and> scanAcc (run RevA [[1], [2], [3], [4], [5::nat]]
       \<lparr>chunkSize = 1, chunks = 5, fileSize = 5, uploadedChunks = []\<rparr>
       [(0, True), (1, False), (2, True), (3, False), (4, True)])
     = \<lparr>completes = [(0, True), (2, True), (4, True)], errors = [(1, True), (3, True)]\<rparr>
   \<and> \<not> allCompleted 5 (scanAcc (run RevA [[1], [2], [3], [4], [5::nat]]
       \<lparr>chunkSize = 1, chunks = 5, fileSize = 5, uploadedChunks = []\<rparr>
       [(0, True), (1, False), (2, True), (3, False), (4, True)]))
   \<and> \<not> seenValue (run RevA [[1], [2], [3], [4], [5::nat]]
       \<lparr>chunkSize = 1, chunks = 5, fileSize = 5, uploadedChunks = []\<rparr>
       [(0, True), (1, False), (2, True), (3, False), (4, True)])
   \<and> \<not> completedFlag (run RevA [[1], [2], [3], [4], [5::nat]]
       \<lparr>chunkSize = 1, chunks = 5, fileSize = 5, uploadedChunks = []\<rparr>
       [(0, True), (1, False), (2, True), (3, False), (4, True)]) 1
   \<and> \<not> completedFlag (run RevA [[1], [2], [3], [4], [5::nat]]
       \<lparr>chunkSize = 1, chunks = 5, fileSize = 5, uploadedChunks = []\<rparr>
       [(0, True), (1, False), (2, True), (3, False), (4, True)]) 3
   \<and> active (run RevA [[1], [2], [3], [4], [5::nat]]
       \<lparr>chunkSize = 1, chunks = 5, fileSize = 5, uploadedChunks = []\<rparr>
       [(0, True), (1, False), (2, True), (3, False), (4, True)]) = []
   \<and> buffer (run RevA [[1], [2], [3], [4], [5::nat]]
       \<lparr>chunkSize = 1, chunks = 5, fileSize = 5, uploadedChunks = []\<rparr>
       [(0, True), (1, False), (2, True), (3, False), (4, True)]) = []
   \<and> outcome (run RevA [[1], [2], [3], [4], [5::nat]]
       \<lparr>chunkSize = 1, chunks = 5, fileSize = 5, uploadedChunks = []\<rparr>
       [(0, True), (1, False), (2, True), (3, False), (4, True)])
     = Some (Next_Complete None)
   \<and> finishRequested (run RevA [[1], [2], [3], [4], [5::nat]]
       \<lparr>chunkSize = 1, chunks = 5, fileSize = 5, uploadedChunks = []\<rparr>
       [(0, True), (1, False), (2, True), (3, False), (4, True)])"
  by code_simp

subsection \<open>The empty chunk list\<close>

lemma foldl_respond_ended:
  "outcome d \<noteq> None \<Longrightarrow> foldl (respond r n) d evs = d"
  by (induction evs) (auto simp: respond_def)

text \<open>
  Claim C10, as the code has it. For the empty chunk list no \<^verbatim>\<open>ChunkStatus\<close> is folded;
  when its source completes, \<^verbatim>\<open>mergeScan\<close> (RxJS 5 and 6) emits the initial accumulator
  because it has emitted nothing, the predicate \<open>|completes| = 0\<close> holds for it, and the
  run delivers that accumulator and completes.
\<close>

theorem empty_chunk_list_succeeds:
  "outcome (run r ([] :: 'b list list) fileMeta evs)
     = Some (Next_Complete (Some \<lparr>completes = [], errors = []\<rparr>))"
proof -
  let ?d0 = "uploadAllChunks r ([] :: 'b list list) fileMeta"
  have o: "outcome ?d0 = Some (Next_Complete (Some \<lparr>completes = [], errors = []\<rparr>))"
    by (simp add: uploadAllChunks_def subscribe_def source_complete_def single_next_def
        allCompleted_def keys_def Let_def)
  then have "outcome ?d0 \<noteq> None" by simp
  then have "foldl (respond r (length ([] :: 'b list list))) ?d0 evs = ?d0"
    by (rule foldl_respond_ended)
  then show ?thesis using o by (simp only: run_def)
qed

text \<open>Claim C10 as stated fails: the run over no chunks does not end in an error.\<close>

theorem empty_chunk_list_no_error:
  "outcome (run RevA ([] :: nat list list)
       \<lparr>chunkSize = 100, chunks = 0, fileSize = 0, uploadedChunks = []\<rparr> [])
     = Some (Next_Complete (Some \<lparr>completes = [], errors = []\<rparr>))
   \<and> outcome (run RevA ([] :: nat list list)
       \<lparr>chunkSize = 100, chunks = 0, fileSize = 0, uploadedChunks = []\<rparr> [])
     \<noteq> Some (Error EmptyError)
   \<and> sliceFile ([] :: nat list) 0 100 = []"
  by code_simp

subsection \<open>The engine methods after teardown\<close>

lemma thenDo_Inr:
  "thenDo m f = Inr e' \<Longrightarrow> \<exists>e1. m = Inr e1 \<and> f e1 = Inr e'"
  by (cases m) (auto simp: thenDo_def)

lemma subject_set_subject:
  "subject sid' (set_subject sid s e) = (if sid' = sid then s else subject sid' e)"
  by (cases sid; cases sid') (simp_all add: subject_def set_subject_def)

lemma close_subject_closed:
  assumes "close_subject sid e = Inr e1"
  shows "closed_s (subject sid e1)"
    and "closed_s (subject sid' e) \<Longrightarrow> closed_s (subject sid' e1)"
proof -
  obtain e0 where c: "Subject_complete sid e = Inr e0" and u: "e1 = Subject_unsubscribe sid e0"
    using thenDo_Inr[OF assms[unfolded close_subject_def]] by auto
  have e0: "e0 = set_subject sid ((subject sid e)\<lparr>isStopped := True, observers := []\<rparr>)
                   (e\<lparr>stopped := stopped e @ observers (subject sid e)\<rparr>)"
    using c by (auto simp: Subject_complete_def Let_def split: if_splits)
  have s: "subject sid' (e\<lparr>stopped := x\<rparr>) = subject sid' e" for x sid'
    by (cases sid') (simp_all add: subject_def)
  show "closed_s (subject sid e1)"
    by (simp add: u Subject_unsubscribe_def subject_set_subject)
  show "closed_s (subject sid' e) \<Longrightarrow> closed_s (subject sid' e1)"
    by (simp add: u e0 Subject_unsubscribe_def subject_set_subject s)
qed

lemma cleanUp_closes:
  assumes "cleanUp e = Inr e'"
  shows "closed_s (startSubject e') \<and> closed_s (retrySubject e') \<and> closed_s (abortSubject e')
       \<and> closed_s (progressSubject e') \<and> closed_s (controlSubject e')
       \<and> closed_s (errorSubject e')"
proof -
  obtain e5 where 6: "close_subject ErrorS e5 = Inr e'"
    and a5: "thenDo (thenDo (thenDo (thenDo (close_subject RetryS e) (close_subject AbortS))
               (close_subject ControlS)) (close_subject ProgressS)) (close_subject StartS) = Inr e5"
    using thenDo_Inr[OF assms[unfolded cleanUp_def]] by blast
  obtain e4 where 5: "close_subject StartS e4 = Inr e5"
    and a4: "thenDo (thenDo (thenDo (close_subject RetryS e) (close_subject AbortS))
               (close_subject ControlS)) (close_subject ProgressS) = Inr e4"
    using thenDo_Inr[OF a5] by blast
  obtain e3 where 4: "close_subject ProgressS e3 = Inr e4"
    and a3: "thenDo (thenDo (close_subject RetryS e) (close_subject AbortS))
               (close_subject ControlS) = Inr e3"
    using thenDo_Inr[OF a4] by blast
  obtain e2 where 3: "close_subject ControlS e2 = Inr e3"
    and a2: "thenDo (close_subject RetryS e) (close_subject AbortS) = Inr e2"
    using thenDo_Inr[OF a3] by blast
  obtain e1 where 2: "close_subject AbortS e1 = Inr e2"
    and 1: "close_subject RetryS e = Inr e1"
    using thenDo_Inr[OF a2] by blast
  note k2 = close_subject_closed(2)[OF 2] and k3 = close_subject_closed(2)[OF 3]
    and k4 = close_subject_closed(2)[OF 4] and k5 = close_subject_closed(2)[OF 5]
    and k6 = close_subject_closed(2)[OF 6]
  have "closed_s (subject RetryS e')"
    using close_subject_closed(1)[OF 1] k2 k3 k4 k5 k6 by blast
  moreover have "closed_s (subject AbortS e')"
    using close_subject_closed(1)[OF 2] k3 k4 k5 k6 by blast
  moreover have "closed_s (subject ControlS e')"
    using close_subject_closed(1)[OF 3] k4 k5 k6 by blast
  moreover have "closed_s (subject ProgressS e')"
    using close_subject_closed(1)[OF 4] k5 k6 by blast
  moreover have "closed_s (subject StartS e')"
    using close_subject_closed(1)[OF 5] k6 by blast
  moreover have "closed_s (subject ErrorS e')"
    using close_subject_closed(1)[OF 6] by blast
  ultimately show ?thesis by (simp add: subject_def)
qed

text \<open>
  Claim C8. After the teardown of revision B (every control subject completed and
  unsubscribed by \<^verbatim>\<open>cleanUp\<close>), each of \<^verbatim>\<open>start\<close>, \<^verbatim>\<open>pause\<close>, \<^verbatim>\<open>resume\<close>, \<^verbatim>\<open>retry\<close> and
  \<^verbatim>\<open>abort\<close> returns without throwing and leaves the state as it is, so calling it again
  changes nothing either.
\<close>

theorem methods_after_cleanUp:
  assumes "cleanUp e = Inr e'"
  shows "start e' = Inr e' \<and> pause e' = Inr e' \<and> resume e' = Inr e' \<and> retry e' = Inr e'
       \<and> abort e' = Inr e'"
  using cleanUp_closes[OF assms]
  by (simp add: start_def pause_def resume_def retry_def abort_def)

lemma cleanUp_subscribed: "\<exists>e'. cleanUp subscribed = Inr e'"
  by (simp add: cleanUp_def close_subject_def thenDo_def Subject_complete_def
      Subject_unsubscribe_def subject_def set_subject_def subscribed_def openSubject_def Let_def)

theorem methods_after_cleanUp_witness:
  "\<exists>e'. cleanUp subscribed = Inr e' \<and> start e' = Inr e' \<and> pause e' = Inr e'
        \<and> resume e' = Inr e' \<and> retry e' = Inr e' \<and> abort e' = Inr e'"
proof -
  obtain e' where c: "cleanUp subscribed = Inr e'" using cleanUp_subscribed by blast
  show ?thesis using methods_after_cleanUp[OF c] c by blast
qed

text \<open>
  Revision A: \<^verbatim>\<open>cleanUp\<close> unsubscribes the subjects and the methods have no guard, so
  \<^verbatim>\<open>pause\<close> after teardown calls \<^verbatim>\<open>next\<close> on a closed subject.
\<close>

lemma pause_A_after_cleanUp_A: "pause_A (cleanUp_A e) = Inl ObjectUnsubscribedError"
  by (simp add: pause_A_def cleanUp_A_def Subject_next_def Subject_unsubscribe_def
      subject_set_subject Let_def)

subsection \<open>Abort\<close>

text \<open>
  Claim C9, evaluated. The upload of revision B is under way, with any events \<open>evs\<close>
  delivered so far, and \<^verbatim>\<open>abort()\<close> is called. The notifier of \<^verbatim>\<open>takeUntil\<close> is notified
  first: the main pipeline completes, \<^verbatim>\<open>cleanUp\<close> completes \<open>abortSubject\<close> and with it
  the merged branch, and the output completes. The branch then ignores the abort value:
  no \<^verbatim>\<open>finish\<close> and no other event follows, and neither \<^verbatim>\<open>pausable(false)\<close> nor
  \<^verbatim>\<open>retryable(false)\<close> is delivered.
\<close>

theorem abort_delivers_no_event:
  "\<exists>e'. abort (subscribed\<lparr>emitted := evs\<rparr>) = Inr e' \<and> emitted e' = evs \<and> outputCompleted e'"
  by (simp add: abort_def Subject_next_def notify_def cleanUp_def close_subject_def thenDo_def
      Subject_complete_def Subject_unsubscribe_def subject_def set_subject_def subscribed_def
      openSubject_def outputCompleted_def emit_def Let_def)

text \<open>Were the merged branch notified first, the two events would be delivered.\<close>

lemma abort_branch_first:
  "\<exists>e'. abort (subscribed\<lparr>emitted := evs,
                  abortSubject := openSubject [Merge_abort, TakeUntil_abort]\<rparr>) = Inr e'
        \<and> emitted e' = evs @ [Pausable False, Retryable False] \<and> outputCompleted e'"
  by (simp add: abort_def Subject_next_def notify_def cleanUp_def close_subject_def thenDo_def
      Subject_complete_def Subject_unsubscribe_def subject_def set_subject_def subscribed_def
      openSubject_def outputCompleted_def emit_def Let_def)

end
